theory Spec2Isabelle
  imports Main "HOL-Library.Word" "HOL-Library.Char_ord" "HOL-Library.List_Lexorder"
    "HOL-Library.AList"
begin

section \<open>Library values used by the program\<close>

subsection \<open>Errors\<close>

text \<open>
  Every error value that the two programs can meet.  \<open>ErrTokens\<close> is the
  \<^verbatim>\<open>errors.New(fmt.Sprintf("expected 2 tokens, %s", s))\<close> of \<^verbatim>\<open>NewMeasurement\<close>;
  \<open>ErrSyntax\<close> and \<open>ErrRange\<close> are the two \<^verbatim>\<open>*strconv.NumError\<close> values of
  \<^verbatim>\<open>strconv.ParseFloat\<close>, carrying the offending token; \<open>EOF\<close> is \<^verbatim>\<open>io.EOF\<close>;
  \<open>ErrInvalid\<close> is \<^verbatim>\<open>os.ErrInvalid\<close>, the answer of every method of a nil
  \<^verbatim>\<open>*os.File\<close>; \<open>ErrOpen\<close> is the \<^verbatim>\<open>*fs.PathError\<close> of a failed \<^verbatim>\<open>os.Open\<close>;
  \<open>ErrBufferFull\<close> is \<^verbatim>\<open>bufio.ErrBufferFull\<close>, which never leaves package \<^verbatim>\<open>bufio\<close> here.
\<close>

datatype error =
    ErrTokens string
  | ErrSyntax string
  | ErrRange string
  | EOF
  | ErrInvalid
  | ErrOpen string
  | ErrBufferFull

subsection \<open>\<^verbatim>\<open>float64\<close>: IEEE 754 binary64\<close>

text \<open>
  A \<^verbatim>\<open>float64\<close> is a NaN, an infinity with its sign, or a finite value
  \<open>Finite s m e\<close> standing for \<open>(-1)\<^sup>s * m * 2\<^sup>e\<close>.  The canonical forms are those
  of the format: \<open>m < 2\<^sup>5\<^sup>3\<close>, \<open>-1074 \<le> e \<le> 971\<close>, and \<open>2\<^sup>5\<^sup>2 \<le> m\<close> unless \<open>e = -1074\<close>
  (subnormals and the two zeros).  The sign is \<open>True\<close> for a set sign bit.
\<close>

datatype float64 = NaN | Infinity bool | Finite bool nat int

text \<open>
  The number of binary digits of \<open>n\<close>, counted from \<open>k\<close>, sixty-four at a time while
  there are as many.
\<close>

fun bits_from :: "int \<Rightarrow> nat \<Rightarrow> int" where
  "bits_from k n =
     (if n = 0 then k
      else if 2 ^ 64 \<le> n then bits_from (k + 64) (n div 2 ^ 64)
      else bits_from (k + 1) (n div 2))"

declare bits_from.simps [simp del]

definition bits :: "nat \<Rightarrow> int" where
  "bits n = bits_from 0 n"

text \<open>
  Rounding of the exact value \<open>M * 2\<^sup>E\<close> to the nearest \<^verbatim>\<open>float64\<close>, ties to even,
  overflowing to infinity: the rounding of every arithmetic operation of Go.
\<close>

definition round_float64 :: "bool \<Rightarrow> nat \<Rightarrow> int \<Rightarrow> float64" where
  "round_float64 s M E =
     (if M = 0 then Finite s 0 (- 1074)
      else
        let e = max (E + bits M - 53) (- 1074);
            (m, e') =
              (if e \<le> E then (M * 2 ^ nat (E - e), e)
               else
                 let sh = nat (e - E);
                     q = M div 2 ^ sh;
                     r = M mod 2 ^ sh;
                     h = 2 ^ (sh - 1);
                     m = (if h < r \<or> (r = h \<and> odd q) then q + 1 else q)
                 in if m = 2 ^ 53 then (2 ^ 52, e + 1) else (m, e))
        in if 971 < e' then Infinity s else Finite s m e')"

text \<open>
  Rounding of the exact quotient \<open>(N / D) * 2\<^sup>E\<close>, for \<open>D > 0\<close>: the quotient is taken
  with at least 64 significant bits and one more bit that records a non-zero remainder,
  so that the rounding above sees on which side of a tie the exact value lies.
\<close>

definition round_ratio :: "bool \<Rightarrow> nat \<Rightarrow> nat \<Rightarrow> int \<Rightarrow> float64" where
  "round_ratio s N D E =
     (let k = nat (bits D) + 64;
          q = (N * 2 ^ k) div D;
          r = (N * 2 ^ k) mod D
      in round_float64 s (2 * q + (if r = 0 then 0 else 1)) (E - int k - 1))"

text \<open>The conversion \<^verbatim>\<open>float64(n)\<close> of an integer, and the constants of package \<^verbatim>\<open>math\<close>.\<close>

definition float64_of_int :: "int \<Rightarrow> float64" where
  "float64_of_int i = round_float64 (i < 0) (nat \<bar>i\<bar>) 0"

definition MaxFloat64 :: float64 where
  "MaxFloat64 = Finite False (2 ^ 53 - 1) 971"

definition SmallestNonzeroFloat64 :: float64 where
  "SmallestNonzeroFloat64 = Finite False 1 (- 1074)"

definition IsNaN :: "float64 \<Rightarrow> bool" where
  "IsNaN x = (x = NaN)"

fun Signbit :: "float64 \<Rightarrow> bool" where
  "Signbit NaN = False"
| "Signbit (Infinity s) = s"
| "Signbit (Finite s m e) = s"

fun is_zero :: "float64 \<Rightarrow> bool" where
  "is_zero (Finite s m e) = (m = 0)"
| "is_zero x = False"

text \<open>
  The signed integer \<open>scaled k x\<close> is the value of the finite \<open>x\<close> in units of \<open>2\<^sup>k\<close>,
  for \<open>k\<close> at most the exponent of \<open>x\<close>.
\<close>

fun scaled :: "int \<Rightarrow> float64 \<Rightarrow> int" where
  "scaled k (Finite s m e) = (if s then - 1 else 1) * int m * 2 ^ nat (e - k)"
| "scaled k x = 0"

text \<open>Go's \<^verbatim>\<open>x < y\<close> on \<^verbatim>\<open>float64\<close>: false when either is NaN, and \<open>-0 = +0\<close>.\<close>

fun f64_less :: "float64 \<Rightarrow> float64 \<Rightarrow> bool" where
  "f64_less NaN y = False"
| "f64_less x NaN = False"
| "f64_less (Infinity s) (Infinity t) = (s \<and> \<not> t)"
| "f64_less (Infinity s) (Finite t m e) = s"
| "f64_less (Finite s m e) (Infinity t) = (\<not> t)"
| "f64_less (Finite s m e) (Finite t n f) =
     (scaled (min e f) (Finite s m e) < scaled (min e f) (Finite t n f))"

text \<open>
  \<^verbatim>\<open>math.Min\<close> and \<^verbatim>\<open>math.Max\<close> with their documented special cases: an infinity of
  the right sign wins over everything, then NaN wins, and of two zeros the negative one is
  the smaller.
\<close>

definition math_Min :: "float64 \<Rightarrow> float64 \<Rightarrow> float64" where
  "math_Min x y =
     (if x = Infinity True \<or> y = Infinity True then Infinity True
      else if IsNaN x \<or> IsNaN y then NaN
      else if is_zero x \<and> is_zero y then (if Signbit x then x else y)
      else if f64_less x y then x else y)"

definition math_Max :: "float64 \<Rightarrow> float64 \<Rightarrow> float64" where
  "math_Max x y =
     (if x = Infinity False \<or> y = Infinity False then Infinity False
      else if IsNaN x \<or> IsNaN y then NaN
      else if is_zero x \<and> is_zero y then (if Signbit x then y else x)
      else if f64_less y x then x else y)"

text \<open>
  Addition, multiplication and division, correctly rounded.  A sum that is exactly zero
  is \<open>+0\<close>, unless both terms are \<open>-0\<close>.
\<close>

fun f64_add :: "float64 \<Rightarrow> float64 \<Rightarrow> float64" where
  "f64_add NaN y = NaN"
| "f64_add x NaN = NaN"
| "f64_add (Infinity s) (Infinity t) = (if s = t then Infinity s else NaN)"
| "f64_add (Infinity s) (Finite t m e) = Infinity s"
| "f64_add (Finite s m e) (Infinity t) = Infinity t"
| "f64_add (Finite s m e) (Finite t n f) =
     (if m = 0 \<and> n = 0 then Finite (s \<and> t) 0 (- 1074)
      else if m = 0 then Finite t n f
      else if n = 0 then Finite s m e
      else
        let k = min e f;
            z = scaled k (Finite s m e) + scaled k (Finite t n f)
        in if z = 0 then Finite False 0 (- 1074)
           else round_float64 (z < 0) (nat \<bar>z\<bar>) k)"

fun f64_mul :: "float64 \<Rightarrow> float64 \<Rightarrow> float64" where
  "f64_mul NaN y = NaN"
| "f64_mul x NaN = NaN"
| "f64_mul (Infinity s) (Infinity t) = Infinity (s \<noteq> t)"
| "f64_mul (Infinity s) (Finite t m e) = (if m = 0 then NaN else Infinity (s \<noteq> t))"
| "f64_mul (Finite s m e) (Infinity t) = (if m = 0 then NaN else Infinity (s \<noteq> t))"
| "f64_mul (Finite s m e) (Finite t n f) = round_float64 (s \<noteq> t) (m * n) (e + f)"

fun f64_div :: "float64 \<Rightarrow> float64 \<Rightarrow> float64" where
  "f64_div NaN y = NaN"
| "f64_div x NaN = NaN"
| "f64_div (Infinity s) (Infinity t) = NaN"
| "f64_div (Infinity s) (Finite t m e) = Infinity (s \<noteq> t)"
| "f64_div (Finite s m e) (Infinity t) = Finite (s \<noteq> t) 0 (- 1074)"
| "f64_div (Finite s m e) (Finite t n f) =
     (if n = 0 then (if m = 0 then NaN else Infinity (s \<noteq> t))
      else round_ratio (s \<noteq> t) m n (e - f))"

text \<open>
  \<^verbatim>\<open>math.Round\<close>: the nearest integer, halves away from zero; zeros, infinities and NaN are
  returned as they are, and the sign is kept when the result is zero.
\<close>

fun math_Round :: "float64 \<Rightarrow> float64" where
  "math_Round NaN = NaN"
| "math_Round (Infinity s) = Infinity s"
| "math_Round (Finite s m e) =
     (if 0 \<le> e then Finite s m e
      else
        let sh = nat (- e);
            q = m div 2 ^ sh;
            r = m mod 2 ^ sh
        in round_float64 s (if 2 ^ sh \<le> 2 * r then q + 1 else q) 0)"

subsection \<open>Formatting with \<^verbatim>\<open>%.1f\<close>\<close>

definition digit_char :: "nat \<Rightarrow> char" where
  "digit_char d = ''0123456789'' ! d"

fun format_nat :: "nat \<Rightarrow> string" where
  "format_nat n =
     (if n < 10 then [digit_char n] else format_nat (n div 10) @ [digit_char (n mod 10)])"

declare format_nat.simps [simp del]

text \<open>
  \<^verbatim>\<open>fmt.Sprintf("%.1f", x)\<close>: the exact binary value of \<open>x\<close> in decimal, correctly
  rounded to one digit after the point (an exact tie goes to the even digit); the sign
  is printed whenever the sign bit is set; \<^verbatim>\<open>NaN\<close>, \<^verbatim>\<open>+Inf\<close> and \<^verbatim>\<open>-Inf\<close> for the
  special values.
\<close>

fun Sprintf_1f :: "float64 \<Rightarrow> string" where
  "Sprintf_1f NaN = ''NaN''"
| "Sprintf_1f (Infinity s) = (if s then ''-Inf'' else ''+Inf'')"
| "Sprintf_1f (Finite s m e) =
     (let t = (if 0 \<le> e then 10 * m * 2 ^ nat e
               else
                 let sh = nat (- e);
                     q = (10 * m) div 2 ^ sh;
                     r = (10 * m) mod 2 ^ sh;
                     h = 2 ^ (sh - 1)
                 in if h < r \<or> (r = h \<and> odd q) then q + 1 else q)
      in (if s then ''-'' else []) @ format_nat (t div 10) @ ''.'' @ format_nat (t mod 10))"

subsection \<open>\<^verbatim>\<open>strings.Split\<close>\<close>

text \<open>
  \<^verbatim>\<open>strings.Split(s, sep)\<close> for a separator of one byte, as in both calls of the program
  (\<^verbatim>\<open>";"\<close> and \<^verbatim>\<open>"\n"\<close>): the pieces between the occurrences of the separator, so one
  piece more than there are separators.
\<close>

fun Split :: "string \<Rightarrow> char \<Rightarrow> string list" where
  "Split [] sep = [[]]"
| "Split (c # cs) sep =
     (if c = sep then [] # Split cs sep
      else (case Split cs sep of
              [] \<Rightarrow> [[c]]
            | t # ts \<Rightarrow> (c # t) # ts))"

subsection \<open>\<^verbatim>\<open>strconv.ParseFloat(s, 64)\<close>\<close>

definition is_digit :: "char \<Rightarrow> bool" where
  "is_digit c = (48 \<le> (of_char c :: nat) \<and> (of_char c :: nat) \<le> 57)"

definition is_hex_letter :: "char \<Rightarrow> bool" where
  "is_hex_letter c =
     ((65 \<le> (of_char c :: nat) \<and> (of_char c :: nat) \<le> 70) \<or>
      (97 \<le> (of_char c :: nat) \<and> (of_char c :: nat) \<le> 102))"

definition digit_val :: "char \<Rightarrow> nat" where
  "digit_val c = of_char c - 48"

definition hex_letter_val :: "char \<Rightarrow> nat" where
  "hex_letter_val c = (of_char c :: nat) mod 32 + 9"

text \<open>The byte code of \<open>c\<close> after \<^verbatim>\<open>if 'A' <= c && c <= 'Z' { c += 'a' - 'A' }\<close>.\<close>

definition lower_code :: "char \<Rightarrow> nat" where
  "lower_code c =
     (if 65 \<le> (of_char c :: nat) \<and> (of_char c :: nat) \<le> 90
      then of_char c + 32 else of_char c)"

fun commonPrefixLenIgnoreCase :: "string \<Rightarrow> string \<Rightarrow> nat" where
  "commonPrefixLenIgnoreCase (c # cs) (p # ps) =
     (if lower_code c = of_char p then Suc (commonPrefixLenIgnoreCase cs ps) else 0)"
| "commonPrefixLenIgnoreCase cs ps = 0"

text \<open>
  \<^verbatim>\<open>special\<close>: the spellings of the infinities and of NaN, in any case: \<^verbatim>\<open>inf\<close> and
  \<^verbatim>\<open>infinity\<close> with an optional sign, \<^verbatim>\<open>nan\<close> without one.  The result is the value and
  the number of bytes it takes.
\<close>

definition special_inf :: "bool \<Rightarrow> nat \<Rightarrow> string \<Rightarrow> (float64 \<times> nat) option" where
  "special_inf neg nsign s =
     (let n0 = commonPrefixLenIgnoreCase s ''infinity'';
          n = (if 3 < n0 \<and> n0 < 8 then 3 else n0)
      in if n = 3 \<or> n = 8 then Some (Infinity neg, nsign + n) else None)"

definition special :: "string \<Rightarrow> (float64 \<times> nat) option" where
  "special s =
     (case s of
        [] \<Rightarrow> None
      | c # cs \<Rightarrow>
          if c = CHR ''+'' then special_inf False 1 cs
          else if c = CHR ''-'' then special_inf True 1 cs
          else if c = CHR ''i'' \<or> c = CHR ''I'' then special_inf False 0 s
          else if c = CHR ''n'' \<or> c = CHR ''N'' then
            (if commonPrefixLenIgnoreCase s ''nan'' = 3 then Some (NaN, 3) else None)
          else None)"

text \<open>
  \<^verbatim>\<open>readFloat\<close>: the scanner of a decimal or hexadecimal floating-point literal.  The
  mantissa loop skips underscores, takes one point, and counts the digits after the
  leading zeros (\<open>nd\<close>) and the position of the point among them (\<open>dp\<close>).  The model
  keeps every digit of the mantissa, where the library keeps nineteen and a flag: the
  library's result is the correctly rounded value of the whole literal all the same.
\<close>

record scan =
  sawdot :: bool
  sawdigits :: bool
  nd :: int
  dp :: int
  mantissa :: nat
  underscores :: bool

fun read_mantissa :: "bool \<Rightarrow> string \<Rightarrow> scan \<Rightarrow> scan \<times> string" where
  "read_mantissa hex [] st = (st, [])"
| "read_mantissa hex (c # cs) st =
     (if c = CHR ''_'' then read_mantissa hex cs (st\<lparr>underscores := True\<rparr>)
      else if c = CHR ''.'' then
        (if sawdot st then (st, c # cs)
         else read_mantissa hex cs (st\<lparr>sawdot := True, dp := nd st\<rparr>))
      else if is_digit c then
        (if c = CHR ''0'' \<and> nd st = 0
         then read_mantissa hex cs (st\<lparr>sawdigits := True, dp := dp st - 1\<rparr>)
         else read_mantissa hex cs
                (st\<lparr>sawdigits := True, nd := nd st + 1,
                    mantissa := mantissa st * (if hex then 16 else 10) + digit_val c\<rparr>))
      else if hex \<and> is_hex_letter c then
        read_mantissa hex cs
          (st\<lparr>sawdigits := True, nd := nd st + 1,
              mantissa := mantissa st * 16 + hex_letter_val c\<rparr>)
      else (st, c # cs))"

text \<open>The digits of the exponent: underscores are skipped, the value stops growing at 10000.\<close>

fun read_exponent :: "string \<Rightarrow> int \<Rightarrow> bool \<Rightarrow> int \<times> bool \<times> string" where
  "read_exponent [] e us = (e, us, [])"
| "read_exponent (c # cs) e us =
     (if c = CHR ''_'' then read_exponent cs e True
      else if is_digit c then
        read_exponent cs (if e < 10000 then e * 10 + int (digit_val c) else e) us
      else (e, us, c # cs))"

text \<open>
  \<^verbatim>\<open>underscoreOK\<close>: an underscore stands only between two digits, or between a base
  prefix and a digit.  \<open>saw\<close> is the last byte seen: \<open>0\<close> for a digit, \<open>_\<close> for an
  underscore, \<open>!\<close> for anything else, \<open>^\<close> at the beginning.
\<close>

fun underscore_scan :: "bool \<Rightarrow> string \<Rightarrow> char \<Rightarrow> bool" where
  "underscore_scan hex [] saw = (saw \<noteq> CHR ''_'')"
| "underscore_scan hex (c # cs) saw =
     (if is_digit c \<or> (hex \<and> is_hex_letter c) then underscore_scan hex cs (CHR ''0'')
      else if c = CHR ''_'' then (saw = CHR ''0'' \<and> underscore_scan hex cs (CHR ''_''))
      else saw \<noteq> CHR ''_'' \<and> underscore_scan hex cs (CHR ''!''))"

definition is_base_letter :: "char \<Rightarrow> bool" where
  "is_base_letter c = (c \<in> set ''bBoOxX'')"

definition underscoreOK :: "string \<Rightarrow> bool" where
  "underscoreOK s0 =
     (let s = (case s0 of
                 [] \<Rightarrow> []
               | c # cs \<Rightarrow> if c = CHR ''-'' \<or> c = CHR ''+'' then cs else s0)
      in case s of
           a # b # rest \<Rightarrow>
             if a = CHR ''0'' \<and> is_base_letter b
             then underscore_scan (b = CHR ''x'' \<or> b = CHR ''X'') rest (CHR ''0'')
             else underscore_scan False s (CHR ''^'')
         | _ \<Rightarrow> underscore_scan False s (CHR ''^''))"

text \<open>
  The result of \<open>readFloat\<close>: the sign, whether the literal is hexadecimal, the mantissa,
  the exponent (of ten, or of two for a hexadecimal literal) and the number of bytes
  read; \<open>None\<close> where the library answers \<^verbatim>\<open>ok = false\<close>.
\<close>

definition readFloat :: "string \<Rightarrow> (bool \<times> bool \<times> nat \<times> int \<times> nat) option" where
  "readFloat s =
     (case s of
        [] \<Rightarrow> None
      | c0 # _ \<Rightarrow>
          let neg = (c0 = CHR ''-'');
              s1 = (if c0 = CHR ''+'' \<or> c0 = CHR ''-'' then tl s else s);
              hex = (case s1 of
                       a # b # _ # _ \<Rightarrow> a = CHR ''0'' \<and> (b = CHR ''x'' \<or> b = CHR ''X'')
                     | _ \<Rightarrow> False);
              s2 = (if hex then drop 2 s1 else s1);
              (st, s3) = read_mantissa hex s2
                 \<lparr>sawdot = False, sawdigits = False, nd = 0, dp = 0, mantissa = 0,
                  underscores = False\<rparr>
          in if \<not> sawdigits st then None
             else
               let dp0 = (if sawdot st then dp st else nd st);
                   dp1 = (if hex then dp0 * 4 else dp0);
                   ndMant = (if hex then nd st * 4 else nd st);
                   finish = (\<lambda>dp2 us rest.
                      let n = length s - length rest
                      in if us \<and> \<not> underscoreOK (take n s) then None
                         else Some (neg, hex,
                                    mantissa st,
                                    (if mantissa st \<noteq> 0 then dp2 - ndMant else 0), n))
               in case s3 of
                    [] \<Rightarrow> if hex then None else finish dp1 (underscores st) s3
                  | x # s4 \<Rightarrow>
                      if (if hex then x = CHR ''p'' \<or> x = CHR ''P''
                          else x = CHR ''e'' \<or> x = CHR ''E'')
                      then
                        (case s4 of
                           [] \<Rightarrow> None
                         | y # s5 \<Rightarrow>
                             let esign = (if y = CHR ''-'' then - 1 else 1);
                                 s6 = (if y = CHR ''+'' \<or> y = CHR ''-'' then s5 else s4)
                             in case s6 of
                                  [] \<Rightarrow> None
                                | z # _ \<Rightarrow>
                                    if \<not> is_digit z then None
                                    else
                                      let (e, us, s7) = read_exponent s6 0 (underscores st)
                                      in finish (dp1 + e * esign) us s7)
                      else if hex then None
                      else finish dp1 (underscores st) s3)"

text \<open>
  The value of a scanned literal: \<open>mantissa * 10\<^sup>e\<^sup>x\<^sup>p\<close>, or \<open>mantissa * 2\<^sup>e\<^sup>x\<^sup>p\<close> for a
  hexadecimal one, rounded to the nearest \<^verbatim>\<open>float64\<close>.
\<close>

definition convert_float :: "bool \<Rightarrow> bool \<Rightarrow> nat \<Rightarrow> int \<Rightarrow> float64" where
  "convert_float neg hex mant ex =
     (if hex then round_float64 neg mant ex
      else if 0 \<le> ex then round_float64 neg (mant * 10 ^ nat ex) 0
      else round_ratio neg mant (10 ^ nat (- ex)) 0)"

text \<open>
  \<^verbatim>\<open>ParseFloat\<close> wants the whole string read; a value that rounds to an infinity is the
  range error.  Both errors come with a value in Go, which the caller here never uses.
\<close>

definition ParseFloat :: "string \<Rightarrow> error + float64" where
  "ParseFloat s =
     (case special s of
        Some (v, n) \<Rightarrow> if n = length s then Inr v else Inl (ErrSyntax s)
      | None \<Rightarrow>
          (case readFloat s of
             None \<Rightarrow> Inl (ErrSyntax s)
           | Some (neg, hex, mant, ex, n) \<Rightarrow>
               if n \<noteq> length s then Inl (ErrSyntax s)
               else
                 (case convert_float neg hex mant ex of
                    Infinity sg \<Rightarrow> Inl (ErrRange s)
                  | v \<Rightarrow> Inr v)))"

section \<open>The data model of the program\<close>

text \<open>
  \<^verbatim>\<open>Measurement\<close>, \<^verbatim>\<open>NewMeasurement\<close>, \<^verbatim>\<open>StationStats\<close>, \<^verbatim>\<open>NewStationStats\<close> and
  \<^verbatim>\<open>StationStats.String\<close> are the same text in \<^verbatim>\<open>main.go\<close> and in the naive program.
\<close>

record Measurement =
  Station :: string
  Value :: float64

definition NewMeasurement :: "string \<Rightarrow> error + Measurement" where
  "NewMeasurement s =
     (let tokens = Split s (CHR '';'')
      in if length tokens \<noteq> 2 then Inl (ErrTokens s)
         else
           (case ParseFloat (tokens ! 1) of
              Inl err \<Rightarrow> Inl err
            | Inr v \<Rightarrow> Inr \<lparr>Station = tokens ! 0, Value = v\<rparr>))"

text \<open>The fields \<^verbatim>\<open>Min\<close> and \<^verbatim>\<open>Max\<close> are primed; \<^verbatim>\<open>Count\<close> is an \<^verbatim>\<open>int64\<close>.\<close>

record StationStats =
  Min' :: float64
  Max' :: float64
  Sum :: float64
  Count :: "64 word"

definition NewStationStats :: StationStats where
  "NewStationStats =
     \<lparr>Min' = MaxFloat64, Max' = SmallestNonzeroFloat64, Sum = Finite False 0 (- 1074),
      Count = 0\<rparr>"

definition StationStats_String :: "StationStats \<Rightarrow> string" where
  "StationStats_String s =
     (let ten = float64_of_int 10;
          mn = f64_div (math_Round (f64_mul (Min' s) ten)) ten;
          mx = f64_div (math_Round (f64_mul (Max' s) ten)) ten;
          sum = f64_div (math_Round (f64_mul (Sum s) ten)) ten
      in Sprintf_1f mn @ ''/'' @ Sprintf_1f (f64_div sum (float64_of_int (sint (Count s))))
         @ ''/'' @ Sprintf_1f mx)"

subsection \<open>The map of all stations\<close>

text \<open>
  The contents of the Go map of the naive program and of the \<^verbatim>\<open>sync.Map\<close> of \<^verbatim>\<open>main.go\<close>:
  an association list with one pair for each key.
\<close>

type_synonym StatsMap = "(string \<times> StationStats) list"

definition apply_value :: "StationStats \<Rightarrow> float64 \<Rightarrow> StationStats" where
  "apply_value stats v =
     stats\<lparr>Min' := math_Min (Min' stats) v,
           Max' := math_Max (Max' stats) v,
           Sum := f64_add (Sum stats) v,
           Count := Count stats + 1\<rparr>"

text \<open>The naive program: \<^verbatim>\<open>func (m StatsMap) Set(new Measurement)\<close> on a Go map.\<close>

definition naive_Set :: "StatsMap \<Rightarrow> Measurement \<Rightarrow> StatsMap" where
  "naive_Set m new =
     (let stats = (case map_of m (Station new) of
                     Some st \<Rightarrow> st
                   | None \<Rightarrow> NewStationStats)
      in AList.update (Station new) (apply_value stats (Value new)) m)"

text \<open>
  \<^verbatim>\<open>main.go\<close>: \<^verbatim>\<open>sync.Map.LoadOrStore\<close> returns the value of the key when there is one,
  and stores and returns the given value when there is none; \<^verbatim>\<open>Store\<close> sets the value.
  \<^verbatim>\<open>Set\<close> is the first followed by the second.
\<close>

definition LoadOrStore :: "StatsMap \<Rightarrow> string \<Rightarrow> StationStats \<Rightarrow> StationStats \<times> StatsMap" where
  "LoadOrStore m k v =
     (case map_of m k of
        Some actual \<Rightarrow> (actual, m)
      | None \<Rightarrow> (v, AList.update k v m))"

definition Store :: "StatsMap \<Rightarrow> string \<Rightarrow> StationStats \<Rightarrow> StatsMap" where
  "Store m k v = AList.update k v m"

definition StatsMap_Set :: "StatsMap \<Rightarrow> Measurement \<Rightarrow> StatsMap" where
  "StatsMap_Set m new =
     (let (s, m1) = LoadOrStore m (Station new) NewStationStats
      in Store m1 (Station new) (apply_value s (Value new)))"

subsection \<open>Standard output\<close>

text \<open>
  One value for each call of \<^verbatim>\<open>fmt.Println\<close>: of an error, of a message followed by an
  error, of a string.
\<close>

datatype printed =
    PrintErr error
  | PrintMsgErr string error
  | PrintStr string

subsection \<open>The lines of one chunk\<close>

text \<open>
  The loop over the lines of one chunk, the same in both programs but for \<^verbatim>\<open>Set\<close>: an
  empty line ends the loop, and so does a line that does not parse, after its error is
  printed.
\<close>

fun collate ::
  "(StatsMap \<Rightarrow> Measurement \<Rightarrow> StatsMap) \<Rightarrow> StatsMap \<Rightarrow> string list \<Rightarrow> StatsMap \<times> printed list"
where
  "collate set_fn stats [] = (stats, [])"
| "collate set_fn stats (line # lines) =
     (if length line = 0 then (stats, [])
      else
        (case NewMeasurement line of
           Inl err \<Rightarrow> (stats, [PrintErr err])
         | Inr m \<Rightarrow> collate set_fn (set_fn stats m) lines))"

subsection \<open>The report\<close>

text \<open>
  The keys are collected from the map, sorted by \<^verbatim>\<open>sort.Strings\<close> (bytewise), and each
  is written as \<^verbatim>\<open>fmt.Sprintf("%s: %v ", k, v)\<close>, where \<^verbatim>\<open>%v\<close> calls
  \<^verbatim>\<open>StationStats.String\<close>.  A key that the map does not have cannot come out of the
  map; \<^verbatim>\<open>Load\<close> would answer \<^verbatim>\<open>nil\<close> for it.
\<close>

definition report :: "StatsMap \<Rightarrow> string" where
  "report stats =
     concat (map (\<lambda>k. k @ '': '' @
                    (case map_of stats k of
                       Some v \<Rightarrow> StationStats_String v
                     | None \<Rightarrow> ''<nil>'') @ '' '')
                 (sort (map fst stats)))"

section \<open>Reading the file\<close>

subsection \<open>\<^verbatim>\<open>os.File\<close>\<close>

text \<open>
  The \<^verbatim>\<open>*os.File\<close> that \<^verbatim>\<open>os.Open\<close> returns: \<open>None\<close> is the nil pointer of a failed
  \<^verbatim>\<open>Open\<close>, \<open>Some rest\<close> an open file with the bytes \<open>rest\<close> still to read.  A read of
  a regular file fills the slice it is given as far as the file goes; at the end of the
  file it answers \<^verbatim>\<open>0, io.EOF\<close>; on the nil pointer \<^verbatim>\<open>0, os.ErrInvalid\<close>.
\<close>

type_synonym File = "string option"

definition File_Read :: "File \<Rightarrow> nat \<Rightarrow> string \<times> error option \<times> File" where
  "File_Read f k =
     (case f of
        None \<Rightarrow> ([], Some ErrInvalid, None)
      | Some rest \<Rightarrow>
          if k = 0 then ([], None, f)
          else if rest = [] then ([], Some EOF, f)
          else (take k rest, None, Some (drop k rest)))"

subsection \<open>\<^verbatim>\<open>bufio.Reader\<close>\<close>

text \<open>
  The reader keeps the file \<open>rd\<close>, the bytes it has read from the file and not yet
  handed out (\<open>buffered\<close>, the slice \<^verbatim>\<open>b.buf[b.r:b.w]\<close>) and the error of the last read of
  the file, until it is reported (\<open>err\<close>).  \<^verbatim>\<open>bufio.NewReader\<close> gives the buffer
  \<open>defaultBufSize\<close> bytes.
\<close>

record Reader =
  rd :: File
  buffered :: string
  err :: "error option"

definition defaultBufSize :: nat where
  "defaultBufSize = 4096"

definition NewReader :: "File \<Rightarrow> Reader" where
  "NewReader f = \<lparr>rd = f, buffered = [], err = None\<rparr>"

text \<open>
  \<^verbatim>\<open>Reader.Read(p)\<close> for a slice of \<open>k\<close> bytes: what is buffered is handed out first, and
  no more than that; with an empty buffer a pending error is reported; otherwise one read
  of the file is made, straight into \<open>p\<close> when \<open>p\<close> is at least as long as the buffer,
  into the buffer when it is shorter.  The result is the bytes read (their number is
  \<open>n\<close>), the error, and the reader afterwards.
\<close>

definition Reader_Read :: "Reader \<Rightarrow> nat \<Rightarrow> string \<times> error option \<times> Reader" where
  "Reader_Read b k =
     (if k = 0 then
        (if buffered b \<noteq> [] then ([], None, b) else ([], err b, b\<lparr>err := None\<rparr>))
      else if buffered b = [] then
        (if err b \<noteq> None then ([], err b, b\<lparr>err := None\<rparr>)
         else if defaultBufSize \<le> k then
           (case File_Read (rd b) k of
              (bytes, e, f) \<Rightarrow> (bytes, e, b\<lparr>rd := f\<rparr>))
         else
           (case File_Read (rd b) defaultBufSize of
              (bytes, e, f) \<Rightarrow>
                if bytes = [] then ([], e, b\<lparr>rd := f\<rparr>)
                else (take k bytes, None, b\<lparr>rd := f, buffered := drop k bytes, err := e\<rparr>)))
      else (take k (buffered b), None, b\<lparr>buffered := drop k (buffered b)\<rparr>))"

text \<open>
  \<^verbatim>\<open>fill\<close> reads the file once into the free part of the buffer; it is called with a
  buffer that is not full.
\<close>

definition fill :: "Reader \<Rightarrow> Reader" where
  "fill b =
     (case File_Read (rd b) (defaultBufSize - length (buffered b)) of
        (bytes, e, f) \<Rightarrow> b\<lparr>rd := f, buffered := buffered b @ bytes, err := e\<rparr>)"

definition file_rest :: "Reader \<Rightarrow> nat" where
  "file_rest b = (case rd b of None \<Rightarrow> 0 | Some rest \<Rightarrow> length rest)"

text \<open>
  \<^verbatim>\<open>Reader.ReadBytes(delim)\<close>, with the loop of \<^verbatim>\<open>ReadSlice\<close> inside the loop of
  \<^verbatim>\<open>collectFragments\<close>: the bytes up to and with the first \<open>delim\<close>; when the buffer
  has none, a pending error ends the search with everything buffered; a full buffer is
  moved to the pieces collected so far (\<open>acc\<close>); otherwise the buffer is filled.
\<close>

function ReadBytes :: "Reader \<Rightarrow> char \<Rightarrow> string \<Rightarrow> string \<times> error option \<times> Reader" where
  "ReadBytes b delim acc =
     (if delim \<in> set (buffered b) then
        (let line = takeWhile (\<lambda>c. c \<noteq> delim) (buffered b) @ [delim]
         in (acc @ line, None, b\<lparr>buffered := drop (length line) (buffered b)\<rparr>))
      else if err b \<noteq> None then (acc @ buffered b, err b, b\<lparr>buffered := [], err := None\<rparr>)
      else if defaultBufSize \<le> length (buffered b) then
        ReadBytes (b\<lparr>buffered := []\<rparr>) delim (acc @ buffered b)
      else ReadBytes (fill b) delim acc)"
  by pat_completeness auto

termination
proof (relation "measures
    [\<lambda>(b, delim, acc). file_rest b + (if err b = None then 1 else 0),
     \<lambda>(b, delim, acc). length (buffered b)]")
  show "wf (measures
    [\<lambda>(b, delim, acc). file_rest b + (if err b = None then 1 else 0),
     \<lambda>(b, delim, acc). length (buffered b)])"
    by simp
next
  fix b :: Reader and delim :: char and acc :: string
  assume "\<not> err b \<noteq> None" and "defaultBufSize \<le> length (buffered b)"
  then show "((b\<lparr>buffered := []\<rparr>, delim, acc @ buffered b), (b, delim, acc))
      \<in> measures
    [\<lambda>(b, delim, acc). file_rest b + (if err b = None then 1 else 0),
     \<lambda>(b, delim, acc). length (buffered b)]"
    by (auto simp: file_rest_def defaultBufSize_def)
next
  fix b :: Reader and delim :: char and acc :: string
  assume "\<not> err b \<noteq> None" and "\<not> defaultBufSize \<le> length (buffered b)"
  then show "((fill b, delim, acc), (b, delim, acc))
      \<in> measures
    [\<lambda>(b, delim, acc). file_rest b + (if err b = None then 1 else 0),
     \<lambda>(b, delim, acc). length (buffered b)]"
    by (auto simp: file_rest_def fill_def File_Read_def neq_Nil_conv split: option.splits)
qed

declare ReadBytes.simps [simp del]

text \<open>The number of bytes that the reader can still hand out.\<close>

definition unread :: "Reader \<Rightarrow> nat" where
  "unread b = length (buffered b) + file_rest b"

lemma Reader_Read_unread:
  assumes "Reader_Read b k = (bytes, e, b')" and "bytes \<noteq> []"
  shows "unread b' < unread b"
  using assms
  by (auto simp: Reader_Read_def File_Read_def unread_def file_rest_def neq_Nil_conv
      split: if_splits option.splits)

lemma fill_unread: "unread (fill b) \<le> unread b"
  by (auto simp: fill_def File_Read_def unread_def file_rest_def split: option.splits)

lemma ReadBytes_unread:
  "ReadBytes b delim acc = (x, e, b') \<Longrightarrow> unread b' \<le> unread b"
proof (induction b delim acc rule: ReadBytes.induct)
  case (1 b delim acc)
  show ?case
  proof (cases "delim \<in> set (buffered b)")
    case True
    with "1.prems" show ?thesis
      by (subst (asm) ReadBytes.simps) (auto simp: unread_def file_rest_def Let_def)
  next
    case False
    note nodelim = this
    show ?thesis
    proof (cases "err b \<noteq> None")
      case True
      with nodelim "1.prems" show ?thesis
        by (subst (asm) ReadBytes.simps) (auto simp: unread_def file_rest_def)
    next
      case False
      note noerr = this
      show ?thesis
      proof (cases "defaultBufSize \<le> length (buffered b)")
        case True
        with nodelim noerr "1.prems"
        have "ReadBytes (b\<lparr>buffered := []\<rparr>) delim (acc @ buffered b) = (x, e, b')"
          by (subst (asm) ReadBytes.simps) simp
        from "1.IH"(1) [OF nodelim noerr True this]
        show ?thesis by (simp add: unread_def file_rest_def)
      next
        case False
        with nodelim noerr "1.prems"
        have "ReadBytes (fill b) delim acc = (x, e, b')"
          by (subst (asm) ReadBytes.simps) simp
        from "1.IH"(2) [OF nodelim noerr False this] fill_unread [of b]
        show ?thesis by simp
      qed
    qed
  qed
qed

section \<open>The two programs\<close>

subsection \<open>\<^verbatim>\<open>sync.Pool\<close>\<close>

text \<open>
  The pool of \<^verbatim>\<open>main.go\<close> holds byte slices; of a slice only its length matters to the
  reads, so the pool is the list of the lengths of the slices in it, the latest first.
  \<^verbatim>\<open>Get\<close> takes any slice out of the pool, or makes a new one with \<^verbatim>\<open>New\<close>, also when
  the pool is not empty: which, Go does not say.  The choice is the parameter \<open>pick\<close>:
  the position of the slice to take, or \<open>None\<close> for a new slice.
\<close>

type_synonym Pool = "nat list"

definition Pool_Get :: "(Pool \<Rightarrow> nat option) \<Rightarrow> nat \<Rightarrow> Pool \<Rightarrow> nat \<times> Pool" where
  "Pool_Get pick new pool =
     (case pick pool of
        None \<Rightarrow> (new, pool)
      | Some i \<Rightarrow>
          if i < length pool then (pool ! i, take i pool @ drop (Suc i) pool)
          else (new, pool))"

definition Pool_Put :: "Pool \<Rightarrow> nat \<Rightarrow> Pool" where
  "Pool_Put pool x = x # pool"

subsection \<open>\<^verbatim>\<open>ProcessFile\<close> of \<^verbatim>\<open>main.go\<close>\<close>

text \<open>
  The loop of \<^verbatim>\<open>ProcessFile\<close>, with the body of each goroutine run where it is started:
  the schedule in which every goroutine ends before the next read.  The state is the
  reader, the pool, the map, what was printed, and (for the statements about chunks) the
  data of every chunk handed to a goroutine so far.  \<open>bufsize\<close> is the length of a new
  buffer, \<^verbatim>\<open>512*1024\<close> in the program.  The result is \<open>Some\<close> map after a \<^verbatim>\<open>break\<close> and
  \<open>None\<close> after the \<^verbatim>\<open>return\<close>.

  The slice that goes back to the pool is \<^verbatim>\<open>buf\<close> as the goroutine sees it: as long as
  the chunk, not as long as a new buffer.
\<close>

function ProcessFile_loop ::
  "(Pool \<Rightarrow> nat option) \<Rightarrow> nat \<Rightarrow> Reader \<Rightarrow> Pool \<Rightarrow> StatsMap \<Rightarrow> printed list \<Rightarrow> string list
   \<Rightarrow> StatsMap option \<times> printed list \<times> string list"
where
  "ProcessFile_loop pick bufsize r pool stats out chunks =
     (case Pool_Get pick bufsize pool of
        (len_buf, pool1) \<Rightarrow>
          (case Reader_Read r len_buf of
             (bytes, e, r1) \<Rightarrow>
               if length bytes = 0 then
                 (if e = Some EOF then (Some stats, out, chunks)
                  else
                    (case e of
                       Some x \<Rightarrow> (Some stats, out @ [PrintErr x], chunks)
                     | None \<Rightarrow> (None, out, chunks)))
               else
                 (case ReadBytes r1 (CHR 0x0A) [] of
                    (remainderOfLine, e2, r2) \<Rightarrow>
                      let n = length remainderOfLine;
                          buf = (if 0 < n \<and> e2 \<noteq> Some EOF
                                 then bytes @ take (n - 1) remainderOfLine
                                 else bytes)
                      in case collate StatsMap_Set stats (Split buf (CHR 0x0A)) of
                           (stats', errs) \<Rightarrow>
                             ProcessFile_loop pick bufsize r2 (Pool_Put pool1 (length buf))
                               stats' (out @ errs) (chunks @ [buf]))))"
  by pat_completeness auto

termination
proof (relation "measure (\<lambda>(pick, bufsize, r, pool, stats, out, chunks). unread r)")
  show "wf (measure (\<lambda>(pick, bufsize, r, pool, stats, out, chunks). unread r))"
    by simp
next
  fix pick :: "Pool \<Rightarrow> nat option" and bufsize :: nat and r :: Reader and pool :: Pool
    and stats :: StatsMap and out :: "printed list" and chunks :: "string list"
    and x :: "nat \<times> Pool" and len_buf pool1 and y :: "string \<times> error option \<times> Reader"
    and bytes ya e r1 and z :: "string \<times> error option \<times> Reader"
    and remainderOfLine za e2 r2 n buf and w :: "StatsMap \<times> printed list" and stats' errs
  assume "(bytes, ya) = Reader_Read r len_buf" and "(e, r1) = ya"
    and "length bytes \<noteq> 0"
    and "(remainderOfLine, za) = ReadBytes r1 (CHR 0x0A) []" and "(e2, r2) = za"
  then have "Reader_Read r len_buf = (bytes, e, r1)" and "bytes \<noteq> []"
    and "ReadBytes r1 (CHR 0x0A) [] = (remainderOfLine, e2, r2)"
    by auto
  then have "unread r2 < unread r"
    using Reader_Read_unread ReadBytes_unread by fastforce
  then show "((pick, bufsize, r2, Pool_Put pool1 (length buf), stats', out @ errs, chunks @ [buf]),
       (pick, bufsize, r, pool, stats, out, chunks))
      \<in> measure (\<lambda>(pick, bufsize, r, pool, stats, out, chunks). unread r)"
    by simp
qed

declare ProcessFile_loop.simps [simp del]

text \<open>
  \<^verbatim>\<open>ProcessFile\<close> itself.  Its input is the outcome of \<^verbatim>\<open>os.Open(FILE)\<close>: an error, with
  the nil file, or the contents of the file.  After the error of \<^verbatim>\<open>Open\<close> is printed the
  function goes on, with the nil file.  Its output is what it prints; the last line is
  the report, unless the loop was left by \<^verbatim>\<open>return\<close>.
\<close>

definition ProcessFile_run ::
  "nat \<Rightarrow> (Pool \<Rightarrow> nat option) \<Rightarrow> error + string \<Rightarrow> StatsMap option \<times> printed list \<times> string list"
where
  "ProcessFile_run bufsize pick opened =
     (case opened of
        Inl e \<Rightarrow>
          ProcessFile_loop pick bufsize (NewReader None) [] []
            [PrintMsgErr ''cannot open file'' e] []
      | Inr contents \<Rightarrow>
          ProcessFile_loop pick bufsize (NewReader (Some contents)) [] [] [] [])"

definition ProcessFile_sized ::
  "nat \<Rightarrow> (Pool \<Rightarrow> nat option) \<Rightarrow> error + string \<Rightarrow> printed list"
where
  "ProcessFile_sized bufsize pick opened =
     (case ProcessFile_run bufsize pick opened of
        (Some stats, out, chunks) \<Rightarrow> out @ [PrintStr (report stats)]
      | (None, out, chunks) \<Rightarrow> out)"

definition ProcessFile :: "(Pool \<Rightarrow> nat option) \<Rightarrow> error + string \<Rightarrow> printed list" where
  "ProcessFile = ProcessFile_sized (512 * 1024)"

subsection \<open>\<^verbatim>\<open>naiveImplementation\<close>\<close>

text \<open>
  The naive program makes a new buffer of \<open>bufsize\<close> bytes (\<^verbatim>\<open>4*1024\<close>) for every read,
  keeps the terminator of the rest of the line, and works on a Go map.
\<close>

function naive_loop ::
  "nat \<Rightarrow> Reader \<Rightarrow> StatsMap \<Rightarrow> printed list \<Rightarrow> string list
   \<Rightarrow> StatsMap option \<times> printed list \<times> string list"
where
  "naive_loop bufsize r stats out chunks =
     (case Reader_Read r bufsize of
        (bytes, e, r1) \<Rightarrow>
          if length bytes = 0 then
            (if e = Some EOF then (Some stats, out, chunks)
             else
               (case e of
                  Some x \<Rightarrow> (Some stats, out @ [PrintErr x], chunks)
                | None \<Rightarrow> (None, out, chunks)))
          else
            (case ReadBytes r1 (CHR 0x0A) [] of
               (remainderOfLine, e2, r2) \<Rightarrow>
                 let buf = (if e2 \<noteq> Some EOF then bytes @ remainderOfLine else bytes)
                 in case collate naive_Set stats (Split buf (CHR 0x0A)) of
                      (stats', errs) \<Rightarrow>
                        naive_loop bufsize r2 stats' (out @ errs) (chunks @ [buf])))"
  by pat_completeness auto

termination
proof (relation "measure (\<lambda>(bufsize, r, stats, out, chunks). unread r)")
  show "wf (measure (\<lambda>(bufsize, r, stats, out, chunks). unread r))"
    by simp
next
  fix bufsize :: nat and r :: Reader
    and stats :: StatsMap and out :: "printed list" and chunks :: "string list"
    and y :: "string \<times> error option \<times> Reader"
    and bytes ya e r1 and z :: "string \<times> error option \<times> Reader"
    and remainderOfLine za e2 r2 buf and w :: "StatsMap \<times> printed list" and stats' errs
  assume "(bytes, ya) = Reader_Read r bufsize" and "(e, r1) = ya"
    and "length bytes \<noteq> 0"
    and "(remainderOfLine, za) = ReadBytes r1 (CHR 0x0A) []" and "(e2, r2) = za"
  then have "Reader_Read r bufsize = (bytes, e, r1)" and "bytes \<noteq> []"
    and "ReadBytes r1 (CHR 0x0A) [] = (remainderOfLine, e2, r2)"
    by auto
  then have "unread r2 < unread r"
    using Reader_Read_unread ReadBytes_unread by fastforce
  then show "((bufsize, r2, stats', out @ errs, chunks @ [buf]),
       (bufsize, r, stats, out, chunks))
      \<in> measure (\<lambda>(bufsize, r, stats, out, chunks). unread r)"
    by simp
qed

declare naive_loop.simps [simp del]

definition naive_run ::
  "nat \<Rightarrow> error + string \<Rightarrow> StatsMap option \<times> printed list \<times> string list"
where
  "naive_run bufsize opened =
     (case opened of
        Inl e \<Rightarrow>
          naive_loop bufsize (NewReader None) []
            [PrintMsgErr ''cannot able to read the file'' e] []
      | Inr contents \<Rightarrow> naive_loop bufsize (NewReader (Some contents)) [] [] [])"

definition naive_sized :: "nat \<Rightarrow> error + string \<Rightarrow> printed list" where
  "naive_sized bufsize opened =
     (case naive_run bufsize opened of
        (Some stats, out, chunks) \<Rightarrow> out @ [PrintStr (report stats)]
      | (None, out, chunks) \<Rightarrow> out)"

definition naiveImplementation :: "error + string \<Rightarrow> printed list" where
  "naiveImplementation = naive_sized (4 * 1024)"

subsection \<open>Two goroutines in \<^verbatim>\<open>Set\<close>\<close>

text \<open>
  \<^verbatim>\<open>StatsMap.Set\<close> of \<^verbatim>\<open>main.go\<close> makes two calls of the \<^verbatim>\<open>sync.Map\<close>, each atomic:
  \<^verbatim>\<open>LoadOrStore\<close>, and after the local computation \<^verbatim>\<open>Store\<close>.  A goroutine in \<^verbatim>\<open>Set\<close> is
  before the first (\<open>Start\<close>), between the two with the value it has loaded (\<open>Loaded\<close>),
  or after the second (\<open>Finished\<close>).  A schedule is the list of the goroutines that take
  the next step, in order.
\<close>

datatype goroutine = Start Measurement | Loaded Measurement StationStats | Finished

fun Set_step :: "StatsMap \<Rightarrow> goroutine \<Rightarrow> StatsMap \<times> goroutine" where
  "Set_step m (Start new) =
     (case LoadOrStore m (Station new) NewStationStats of
        (s, m1) \<Rightarrow> (m1, Loaded new s))"
| "Set_step m (Loaded new s) = (Store m (Station new) (apply_value s (Value new)), Finished)"
| "Set_step m Finished = (m, Finished)"

fun run_schedule :: "nat list \<Rightarrow> StatsMap \<times> goroutine list \<Rightarrow> StatsMap \<times> goroutine list" where
  "run_schedule [] c = c"
| "run_schedule (i # sched) (m, gs) =
     (if i < length gs then
        (case Set_step m (gs ! i) of
           (m', g) \<Rightarrow> run_schedule sched (m', gs[i := g]))
      else run_schedule sched (m, gs))"

section \<open>The vocabulary of the properties\<close>

text \<open>
  A line is well formed when it has no terminator inside and \<^verbatim>\<open>NewMeasurement\<close> accepts
  it.  \<open>file_of ls\<close> is the file with the lines \<open>ls\<close>, each followed by its terminator.
  \<open>apply_lines\<close> applies \<^verbatim>\<open>Set\<close> to the measurement of each line that parses, in order.
\<close>

definition well_formed :: "string \<Rightarrow> bool" where
  "well_formed l =
     (CHR 0x0A \<notin> set l \<and> (case NewMeasurement l of Inr m \<Rightarrow> True | Inl e \<Rightarrow> False))"

definition file_of :: "string list \<Rightarrow> string" where
  "file_of ls = concat (map (\<lambda>l. l @ [CHR 0x0A]) ls)"

definition apply_lines ::
  "(StatsMap \<Rightarrow> Measurement \<Rightarrow> StatsMap) \<Rightarrow> StatsMap \<Rightarrow> string list \<Rightarrow> StatsMap"
where
  "apply_lines set_fn stats ls =
     foldl (\<lambda>st l. case NewMeasurement l of Inr m \<Rightarrow> set_fn st m | Inl e \<Rightarrow> st) stats ls"

text \<open>
  What a reader of an open file has still to deliver: the buffered bytes, then the rest
  of the file.  Between two calls the reader of an open file holds no error; inside
  \<^verbatim>\<open>ReadBytes\<close> it may hold the end of the file, once the file is exhausted and the
  buffer has no delimiter.
\<close>

definition stream :: "Reader \<Rightarrow> string" where
  "stream b = buffered b @ (case rd b of None \<Rightarrow> [] | Some rest \<Rightarrow> rest)"

definition opened_ok :: "Reader \<Rightarrow> bool" where
  "opened_ok b = (rd b \<noteq> None \<and> err b = None)"

definition filling :: "char \<Rightarrow> Reader \<Rightarrow> bool" where
  "filling delim b =
     (rd b \<noteq> None \<and>
      (err b = None \<or> (err b = Some EOF \<and> rd b = Some [] \<and> delim \<notin> set (buffered b))))"

text \<open>
  The number of the lines of \<open>ls\<close> that parse with the key \<open>k\<close>, and the count that a
  map holds for \<open>k\<close> (zero when it has no entry).
\<close>

definition lines_for :: "string \<Rightarrow> string list \<Rightarrow> nat" where
  "lines_for k ls =
     length (filter (\<lambda>l. case NewMeasurement l of Inr m \<Rightarrow> Station m = k | Inl e \<Rightarrow> False) ls)"

definition Count_of :: "StatsMap \<Rightarrow> string \<Rightarrow> 64 word" where
  "Count_of m k = (case map_of m k of Some s \<Rightarrow> Count s | None \<Rightarrow> 0)"

text \<open>
  The file of \<open>n\<close> lines \<^verbatim>\<open>A;1\<close>, each with its newline, and a last line \<^verbatim>\<open>Bobo;2.5\<close>
  without one.
\<close>

definition cut_file :: "nat \<Rightarrow> string" where
  "cut_file n = concat (replicate n ''A;1\<newline>'') @ ''Bobo;2.5''"

text \<open>
  The loop over the lines, run on the chunks of a list one after the other: the state is
  the map and what was printed.
\<close>

definition collate_chunks ::
  "(StatsMap \<Rightarrow> Measurement \<Rightarrow> StatsMap) \<Rightarrow> StatsMap \<times> printed list \<Rightarrow> string list
   \<Rightarrow> StatsMap \<times> printed list"
where
  "collate_chunks set_fn =
     foldl (\<lambda>(st, out) c.
              case collate set_fn st (Split c (CHR 0x0A)) of (st', errs) \<Rightarrow> (st', out @ errs))"

section \<open>Lemmas\<close>

subsection \<open>Splitting into lines\<close>

lemma Split_not_Nil: "Split s sep \<noteq> []"
  by (induction s) (auto split: list.splits)

lemma Split_no_sep: "sep \<notin> set l \<Longrightarrow> Split l sep = [l]"
  by (induction l) auto

lemma Split_append_sep: "sep \<notin> set l \<Longrightarrow> Split (l @ sep # s) sep = l # Split s sep"
  by (induction l) auto

lemma Split_single: "Split s sep = [b] \<Longrightarrow> s = b \<and> sep \<notin> set b"
proof (induction s arbitrary: b)
  case Nil
  then show ?case by simp
next
  case (Cons c cs)
  show ?case
  proof (cases "c = sep")
    case True
    with Cons.prems show ?thesis by (simp add: Split_not_Nil)
  next
    case False
    with Cons.prems obtain t where t: "Split cs sep = [t]" and b: "b = c # t"
      by (auto simp: Split_not_Nil split: list.splits)
    from Cons.IH [OF t] b False show ?thesis by simp
  qed
qed

lemma Split_two:
  "Split s sep = [a, b] \<longleftrightarrow> s = a @ sep # b \<and> sep \<notin> set a \<and> sep \<notin> set b"
proof
  assume "Split s sep = [a, b]"
  then show "s = a @ sep # b \<and> sep \<notin> set a \<and> sep \<notin> set b"
  proof (induction s arbitrary: a)
    case Nil
    then show ?case by simp
  next
    case (Cons c cs)
    show ?case
    proof (cases "c = sep")
      case True
      with Cons.prems have "a = []" and "Split cs sep = [b]" by auto
      with Split_single [of cs sep b] True show ?thesis by simp
    next
      case False
      with Cons.prems obtain t where t: "Split cs sep = [t, b]" and a: "a = c # t"
        by (auto simp: Split_not_Nil split: list.splits)
      from Cons.IH [OF t] a False show ?thesis by simp
    qed
  qed
next
  assume "s = a @ sep # b \<and> sep \<notin> set a \<and> sep \<notin> set b"
  then show "Split s sep = [a, b]"
    by (simp add: Split_append_sep Split_no_sep)
qed

lemma length_Split_two:
  "length (Split s sep) = 2 \<longleftrightarrow> (\<exists>a b. s = a @ sep # b \<and> sep \<notin> set a \<and> sep \<notin> set b)"
proof
  assume "length (Split s sep) = 2"
  then obtain a b where "Split s sep = [a, b]"
    by (cases "Split s sep"; cases "tl (Split s sep)") auto
  then show "\<exists>a b. s = a @ sep # b \<and> sep \<notin> set a \<and> sep \<notin> set b"
    using Split_two by blast
next
  assume "\<exists>a b. s = a @ sep # b \<and> sep \<notin> set a \<and> sep \<notin> set b"
  then obtain a b where "Split s sep = [a, b]" using Split_two by blast
  then show "length (Split s sep) = 2" by simp
qed

lemma Split_file_of:
  "\<forall>l\<in>set ls. CHR 0x0A \<notin> set l \<Longrightarrow> Split (file_of ls @ t) (CHR 0x0A) = ls @ Split t (CHR 0x0A)"
  by (induction ls) (auto simp: file_of_def Split_append_sep)

lemma file_of_append: "file_of (xs @ ys) = file_of xs @ file_of ys"
  by (simp add: file_of_def)

lemma file_of_snoc_butlast: "butlast (file_of (ls @ [l])) = file_of ls @ l"
  by (simp add: file_of_def butlast_append)

lemma Split_butlast_file_of:
  assumes "\<forall>l\<in>set ls. CHR 0x0A \<notin> set l" and "ls \<noteq> []"
  shows "Split (butlast (file_of ls)) (CHR 0x0A) = ls"
proof -
  from assms(2) obtain ks l where ls: "ls = ks @ [l]"
    by (metis rev_exhaust)
  with assms(1) have "\<forall>l\<in>set ks. CHR 0x0A \<notin> set l" and "CHR 0x0A \<notin> set l" by auto
  then show ?thesis
    unfolding ls file_of_snoc_butlast by (simp add: Split_file_of Split_no_sep)
qed

lemma well_formed_not_Nil: "well_formed l \<Longrightarrow> l \<noteq> []"
  by (auto simp: well_formed_def NewMeasurement_def)

lemma collate_well_formed:
  "\<forall>l\<in>set ls. well_formed l \<Longrightarrow>
   collate set_fn st (ls @ rest) = collate set_fn (apply_lines set_fn st ls) rest"
proof (induction ls arbitrary: st)
  case Nil
  then show ?case by (simp add: apply_lines_def)
next
  case (Cons l ls)
  from Cons.prems have wf: "well_formed l" and rest: "\<forall>l\<in>set ls. well_formed l" by auto
  from wf obtain m where m: "NewMeasurement l = Inr m"
    by (auto simp: well_formed_def split: sum.splits)
  from wf have "l \<noteq> []" by (rule well_formed_not_Nil)
  with m Cons.IH [OF rest] show ?case by (simp add: apply_lines_def)
qed

lemma apply_lines_append:
  "apply_lines set_fn st (xs @ ys) = apply_lines set_fn (apply_lines set_fn st xs) ys"
  by (simp add: apply_lines_def)

lemma file_of_boundary:
  assumes "\<forall>l\<in>set ls. CHR 0x0A \<notin> set l" and "file_of ls = a @ b" and "b \<noteq> []"
  shows "\<exists>j. 0 < j \<and> j \<le> length ls \<and>
             a @ takeWhile (\<lambda>c. c \<noteq> CHR 0x0A) b @ [CHR 0x0A] = file_of (take j ls) \<and>
             drop (Suc (length (takeWhile (\<lambda>c. c \<noteq> CHR 0x0A) b))) b = file_of (drop j ls)"
  using assms
proof (induction ls arbitrary: a)
  case Nil
  then show ?case by (simp add: file_of_def)
next
  case (Cons l ls)
  from Cons.prems(1) have l: "CHR 0x0A \<notin> set l" and ls: "\<forall>l\<in>set ls. CHR 0x0A \<notin> set l"
    by auto
  have eq: "l @ CHR 0x0A # file_of ls = a @ b"
    using Cons.prems(2) by (simp add: file_of_def)
  show ?case
  proof (cases "length a \<le> length l")
    case True
    with eq obtain l2 where l2: "l = a @ l2" and b: "b = l2 @ CHR 0x0A # file_of ls"
      by (metis append_eq_append_conv_if append_take_drop_id)
    from l l2 have "CHR 0x0A \<notin> set l2" by simp
    then have tw: "takeWhile (\<lambda>c. c \<noteq> CHR 0x0A) b = l2"
      unfolding b by (auto simp: takeWhile_tail)
    have d: "drop (Suc (length l2)) b = file_of ls"
      by (simp add: b)
    show ?thesis
      by (rule exI [of _ 1]) (simp add: tw d l2 file_of_def)
  next
    case False
    define a' where "a' = drop (Suc (length l)) a"
    from False have len: "Suc (length l) \<le> length a" by simp
    have "take (Suc (length l)) (l @ CHR 0x0A # file_of ls) = l @ [CHR 0x0A]"
      by simp
    with eq len have "take (Suc (length l)) a = l @ [CHR 0x0A]"
      by simp
    then have a': "a = l @ CHR 0x0A # a'"
      unfolding a'_def by (metis append_take_drop_id append.assoc append_Cons append_Nil)
    with eq have rest: "file_of ls = a' @ b"
      by simp
    from Cons.IH [OF ls rest Cons.prems(3)] obtain j where
      j: "0 < j" "j \<le> length ls"
      "a' @ takeWhile (\<lambda>c. c \<noteq> CHR 0x0A) b @ [CHR 0x0A] = file_of (take j ls)"
      "drop (Suc (length (takeWhile (\<lambda>c. c \<noteq> CHR 0x0A) b))) b = file_of (drop j ls)"
      by blast
    show ?thesis
      by (rule exI [of _ "Suc j"]) (use j a' in \<open>simp add: file_of_def\<close>)
  qed
qed

subsection \<open>The reader of an open file\<close>

lemma take_drop_take:
  "k \<le> n \<Longrightarrow> take k y @ drop k (take n y) @ drop n y = y"
proof -
  assume "k \<le> n"
  then have "take k y = take k (take n y)" by (simp add: min_def)
  then show ?thesis by (metis append.assoc append_take_drop_id)
qed

lemma length_takeWhile_delim:
  "d \<in> set xs \<Longrightarrow> length (takeWhile (\<lambda>c. c \<noteq> d) xs) < length xs"
  by (induction xs) auto

lemma takeWhile_no_delim:
  "d \<notin> set xs \<Longrightarrow> takeWhile (\<lambda>c. c \<noteq> d) (xs @ s) = xs @ takeWhile (\<lambda>c. c \<noteq> d) s"
  by (induction xs) auto

lemma Reader_Read_stream:
  assumes "opened_ok b" and "0 < k" and "Reader_Read b k = (bytes, e, b')"
  shows "opened_ok b' \<and> stream b = bytes @ stream b' \<and>
         (if stream b = [] then e = Some EOF else bytes \<noteq> [] \<and> e = None)"
  using assms
  by (auto simp: Reader_Read_def File_Read_def opened_ok_def stream_def defaultBufSize_def
      take_drop_take split: if_splits option.splits)

lemma filling_fill:
  assumes "filling delim b" and "delim \<notin> set (buffered b)" and "err b = None"
    and "\<not> defaultBufSize \<le> length (buffered b)"
  shows "filling delim (fill b) \<and> stream (fill b) = stream b"
  using assms
  by (auto simp: filling_def fill_def File_Read_def stream_def split: option.splits)

lemma ReadBytes_stream:
  assumes "filling delim b" and "ReadBytes b delim acc = (x, e, b')"
  shows "opened_ok b' \<and>
         (if delim \<in> set (stream b)
          then e = None \<and> x = acc @ takeWhile (\<lambda>c. c \<noteq> delim) (stream b) @ [delim] \<and>
               stream b' = drop (Suc (length (takeWhile (\<lambda>c. c \<noteq> delim) (stream b)))) (stream b)
          else e = Some EOF \<and> x = acc @ stream b \<and> stream b' = [])"
  using assms
proof (induction b delim acc rule: ReadBytes.induct)
  case (1 b delim acc)
  show ?case
  proof (cases "delim \<in> set (buffered b)")
    case True
    with "1.prems"(1) have noerr: "err b = None" and op: "rd b \<noteq> None"
      by (auto simp: filling_def)
    from True "1.prems"(2)
    have res: "x = acc @ takeWhile (\<lambda>c. c \<noteq> delim) (buffered b) @ [delim]" "e = None"
      "b' = b\<lparr>buffered := drop (Suc (length (takeWhile (\<lambda>c. c \<noteq> delim) (buffered b)))) (buffered b)\<rparr>"
      by (subst (asm) ReadBytes.simps; simp add: Let_def)+
    from True have tw: "takeWhile (\<lambda>c. c \<noteq> delim) (stream b) = takeWhile (\<lambda>c. c \<noteq> delim) (buffered b)"
      by (simp add: stream_def takeWhile_append1)
    have "length (takeWhile (\<lambda>c. c \<noteq> delim) (buffered b)) < length (buffered b)"
      using True by (rule length_takeWhile_delim)
    then have "Suc (length (takeWhile (\<lambda>c. c \<noteq> delim) (buffered b))) \<le> length (buffered b)"
      by simp
    with True res noerr op tw show ?thesis
      by (simp add: opened_ok_def stream_def)
  next
    case False
    note nodelim = this
    show ?thesis
    proof (cases "err b \<noteq> None")
      case True
      with "1.prems"(1) have eof: "err b = Some EOF" "rd b = Some []"
        by (auto simp: filling_def)
      from nodelim True "1.prems"(2)
      have "x = acc @ buffered b" "e = err b" "b' = b\<lparr>buffered := [], err := None\<rparr>"
        by (subst (asm) ReadBytes.simps; simp)+
      with eof nodelim show ?thesis
        by (simp add: opened_ok_def stream_def)
    next
      case False
      then have noerr: "err b = None" by simp
      show ?thesis
      proof (cases "defaultBufSize \<le> length (buffered b)")
        case True
        with nodelim noerr "1.prems"(2)
        have rec: "ReadBytes (b\<lparr>buffered := []\<rparr>) delim (acc @ buffered b) = (x, e, b')"
          by (subst (asm) ReadBytes.simps) simp
        from "1.prems"(1) noerr have fl: "filling delim (b\<lparr>buffered := []\<rparr>)"
          by (simp add: filling_def)
        have st: "stream b = buffered b @ stream (b\<lparr>buffered := []\<rparr>)"
          by (simp add: stream_def)
        note tw = takeWhile_no_delim [OF nodelim]
        from "1.IH"(1) [OF nodelim False True fl rec] nodelim
        show ?thesis
          unfolding st by (auto simp: tw split: if_splits)
      next
        case False
        with nodelim noerr "1.prems"(2)
        have rec: "ReadBytes (fill b) delim acc = (x, e, b')"
          by (subst (asm) ReadBytes.simps) simp
        from filling_fill [OF "1.prems"(1) nodelim noerr False]
        have fl: "filling delim (fill b)" and st: "stream (fill b) = stream b"
          by simp_all
        from "1.IH"(2) [OF nodelim \<open>\<not> err b \<noteq> None\<close> False fl rec]
        show ?thesis
          unfolding st .
      qed
    qed
  qed
qed

lemma opened_ok_filling: "opened_ok b \<Longrightarrow> filling delim b"
  by (simp add: opened_ok_def filling_def)

lemma Pool_Get_positive:
  assumes "0 < new" and "\<forall>x\<in>set pool. 0 < x" and "Pool_Get pick new pool = (k, pool1)"
  shows "0 < k \<and> (\<forall>x\<in>set pool1. 0 < x)"
proof (cases "pick pool")
  case None
  with assms show ?thesis by (simp add: Pool_Get_def)
next
  case (Some i)
  show ?thesis
  proof (cases "i < length pool")
    case True
    with Some assms(3) have k: "k = pool ! i" and p: "pool1 = take i pool @ drop (Suc i) pool"
      by (simp_all add: Pool_Get_def)
    have "set pool1 \<subseteq> set pool"
      unfolding p using set_take_subset [of i pool] set_drop_subset [of "Suc i" pool] by auto
    with assms(2) True k show ?thesis by auto
  next
    case False
    with Some assms show ?thesis by (simp add: Pool_Get_def)
  qed
qed

lemma last_file_of: "ls \<noteq> [] \<Longrightarrow> last (file_of ls) = CHR 0x0A"
  by (induction ls rule: rev_induct) (simp_all add: file_of_def)

lemma file_of_Nil_iff: "file_of ls = [] \<longleftrightarrow> ls = []"
  by (cases ls) (simp_all add: file_of_def)

lemma file_of_suffix_has_newline:
  assumes "file_of ls = a @ b" and "b \<noteq> []"
  shows "CHR 0x0A \<in> set b"
proof -
  from assms have "ls \<noteq> []" by (auto simp: file_of_def)
  then have "last (file_of ls) = CHR 0x0A" by (rule last_file_of)
  with assms have "last b = CHR 0x0A" by simp
  with assms(2) show ?thesis by (metis last_in_set)
qed

lemma well_formed_no_newline: "well_formed l \<Longrightarrow> CHR 0x0A \<notin> set l"
  by (simp add: well_formed_def)

subsection \<open>The two loops on a file of well-formed lines\<close>

lemma collate_all_well_formed:
  assumes "\<forall>l\<in>set ls. well_formed l"
  shows "collate set_fn st ls = (apply_lines set_fn st ls, [])"
    and "collate set_fn st (ls @ [[]]) = (apply_lines set_fn st ls, [])"
  using collate_well_formed [OF assms, of set_fn st "[]"]
    collate_well_formed [OF assms, of set_fn st "[[]]"]
  by simp_all

lemma ProcessFile_loop_well_formed:
  assumes "\<forall>l\<in>set ls. well_formed l" and "opened_ok r" and "stream r = file_of ls"
    and "0 < bufsize" and "\<forall>x\<in>set pool. 0 < x"
  shows "\<exists>cs. ProcessFile_loop pick bufsize r pool stats out chunks =
           (Some (apply_lines StatsMap_Set stats ls), out, chunks @ cs)"
  using assms
proof (induction "length ls" arbitrary: ls r pool stats out chunks rule: less_induct)
  case less
  note wf = less.prems(1) and ok = less.prems(2) and st = less.prems(3)
  obtain k pool1 where get: "Pool_Get pick bufsize pool = (k, pool1)"
    by (cases "Pool_Get pick bufsize pool")
  from Pool_Get_positive [OF less.prems(4,5) get]
  have k: "0 < k" and pool1: "\<forall>x\<in>set pool1. 0 < x" by simp_all
  obtain bytes e r1 where rd: "Reader_Read r k = (bytes, e, r1)"
    by (cases "Reader_Read r k")
  have ok1: "opened_ok r1" and parts: "stream r = bytes @ stream r1"
    and ends: "if stream r = [] then e = Some EOF else bytes \<noteq> [] \<and> e = None"
    using Reader_Read_stream [OF ok k rd] by blast+
  show ?case
  proof (cases "ls = []")
    case True
    with st have "stream r = []" by (simp add: file_of_def)
    with parts ends have "bytes = []" "e = Some EOF" by simp_all
    with rd have rd': "Reader_Read r k = ([], Some EOF, r1)" by simp
    have "ProcessFile_loop pick bufsize r pool stats out chunks = (Some stats, out, chunks)"
      by (subst ProcessFile_loop.simps) (simp add: get rd')
    with True show ?thesis
      by (simp add: apply_lines_def)
  next
    case False
    with st have "stream r \<noteq> []" by (simp add: file_of_Nil_iff)
    with ends have bytes: "bytes \<noteq> []" and e: "e = None" by simp_all
    obtain rem e2 r2 where rb: "ReadBytes r1 (CHR 0x0A) [] = (rem, e2, r2)"
      by (cases "ReadBytes r1 (CHR 0x0A) []")
    note rbs = ReadBytes_stream [OF opened_ok_filling [OF ok1] rb]
    from rbs have ok2: "opened_ok r2" by simp
    from wf have nonl: "\<forall>l\<in>set ls. CHR 0x0A \<notin> set l"
      by (simp add: well_formed_no_newline)
    from st parts have whole: "file_of ls = bytes @ stream r1" by simp
    show ?thesis
    proof (cases "stream r1 = []")
      case True
      with rbs have rem: "rem = []" and e2: "e2 = Some EOF" and st2: "stream r2 = file_of []"
        by (simp_all add: file_of_def)
      from whole True have buf: "bytes = file_of ls" by simp
      have sp: "Split bytes (CHR 0x0A) = ls @ [[]]"
        using Split_file_of [OF nonl, of "[]"] by (simp add: buf)
      have pool2: "\<forall>x\<in>set (Pool_Put pool1 (length bytes)). 0 < x"
        using pool1 bytes by (simp add: Pool_Put_def)
      have "length [] < length ls" using \<open>ls \<noteq> []\<close> by simp
      from less.hyps [OF this _ ok2 st2 less.prems(4) pool2,
          of "apply_lines StatsMap_Set stats ls" out "chunks @ [bytes]"]
      obtain cs where rec: "ProcessFile_loop pick bufsize r2 (Pool_Put pool1 (length bytes))
          (apply_lines StatsMap_Set stats ls) out (chunks @ [bytes]) =
          (Some (apply_lines StatsMap_Set stats ls), out, chunks @ bytes # cs)"
        by (auto simp: apply_lines_def)
      have rb': "ReadBytes r1 (CHR 0x0A) [] = ([], Some EOF, r2)"
        using rb rem e2 by simp
      have col: "collate StatsMap_Set stats (Split bytes (CHR 0x0A)) =
          (apply_lines StatsMap_Set stats ls, [])"
        unfolding sp by (rule collate_all_well_formed(2) [OF wf])
      have "ProcessFile_loop pick bufsize r pool stats out chunks =
          ProcessFile_loop pick bufsize r2 (Pool_Put pool1 (length bytes))
            (apply_lines StatsMap_Set stats ls) out (chunks @ [bytes])"
        by (subst ProcessFile_loop.simps) (simp add: get rd rb' bytes col)
      with rec show ?thesis
        by simp
    next
      case False
      with whole have nl: "CHR 0x0A \<in> set (stream r1)"
        by (rule file_of_suffix_has_newline)
      with rbs have rem: "rem = takeWhile (\<lambda>c. c \<noteq> CHR 0x0A) (stream r1) @ [CHR 0x0A]"
        and e2: "e2 = None"
        and st2: "stream r2 =
          drop (Suc (length (takeWhile (\<lambda>c. c \<noteq> CHR 0x0A) (stream r1)))) (stream r1)"
        by simp_all
      from file_of_boundary [OF nonl whole False] obtain j where
        j: "0 < j" "j \<le> length ls"
        and pre: "bytes @ takeWhile (\<lambda>c. c \<noteq> CHR 0x0A) (stream r1) @ [CHR 0x0A] = file_of (take j ls)"
        and post: "drop (Suc (length (takeWhile (\<lambda>c. c \<noteq> CHR 0x0A) (stream r1)))) (stream r1) =
          file_of (drop j ls)"
        by blast
      define buf where "buf = bytes @ takeWhile (\<lambda>c. c \<noteq> CHR 0x0A) (stream r1)"
      from pre have "file_of (take j ls) = buf @ [CHR 0x0A]"
        unfolding buf_def by simp
      then have bl: "butlast (file_of (take j ls)) = buf"
        by simp
      from j \<open>ls \<noteq> []\<close> have ne: "take j ls \<noteq> []" by simp
      from nonl have "\<forall>l\<in>set (take j ls). CHR 0x0A \<notin> set l"
        by (auto dest: in_set_takeD)
      from Split_butlast_file_of [OF this ne] bl
      have sp: "Split buf (CHR 0x0A) = take j ls"
        by simp
      from wf have wfj: "\<forall>l\<in>set (take j ls). well_formed l"
        and wfd: "\<forall>l\<in>set (drop j ls). well_formed l"
        by (auto dest: in_set_takeD in_set_dropD)
      have pool2: "\<forall>x\<in>set (Pool_Put pool1 (length buf)). 0 < x"
        using pool1 bytes by (simp add: Pool_Put_def buf_def)
      from j \<open>ls \<noteq> []\<close> have shorter: "length (drop j ls) < length ls" by simp
      from st2 post have st2': "stream r2 = file_of (drop j ls)" by simp
      from less.hyps [OF shorter wfd ok2 st2' less.prems(4) pool2,
          of "apply_lines StatsMap_Set stats (take j ls)" out "chunks @ [buf]"]
      obtain cs where rec: "ProcessFile_loop pick bufsize r2 (Pool_Put pool1 (length buf))
          (apply_lines StatsMap_Set stats (take j ls)) out (chunks @ [buf]) =
          (Some (apply_lines StatsMap_Set (apply_lines StatsMap_Set stats (take j ls)) (drop j ls)),
           out, chunks @ buf # cs)"
        by auto
      have all: "apply_lines StatsMap_Set (apply_lines StatsMap_Set stats (take j ls)) (drop j ls)
          = apply_lines StatsMap_Set stats ls"
        unfolding apply_lines_append [symmetric] by simp
      have rb': "ReadBytes r1 (CHR 0x0A) [] =
          (takeWhile (\<lambda>c. c \<noteq> CHR 0x0A) (stream r1) @ [CHR 0x0A], None, r2)"
        using rb rem e2 by simp
      have col: "collate StatsMap_Set stats (Split buf (CHR 0x0A)) =
          (apply_lines StatsMap_Set stats (take j ls), [])"
        unfolding sp by (rule collate_all_well_formed(1) [OF wfj])
      have "ProcessFile_loop pick bufsize r pool stats out chunks =
          ProcessFile_loop pick bufsize r2 (Pool_Put pool1 (length buf))
            (apply_lines StatsMap_Set stats (take j ls)) out (chunks @ [buf])"
        by (subst ProcessFile_loop.simps)
          (simp add: get rd rb' bytes col [unfolded buf_def] buf_def)
      with rec all show ?thesis
        by simp
    qed
  qed
qed

lemma naive_loop_well_formed:
  assumes "\<forall>l\<in>set ls. well_formed l" and "opened_ok r" and "stream r = file_of ls"
    and "0 < bufsize"
  shows "\<exists>cs. naive_loop bufsize r stats out chunks =
           (Some (apply_lines naive_Set stats ls), out, chunks @ cs)"
  using assms
proof (induction "length ls" arbitrary: ls r stats out chunks rule: less_induct)
  case less
  note wf = less.prems(1) and ok = less.prems(2) and st = less.prems(3)
  note k = less.prems(4)
  obtain bytes e r1 where rd: "Reader_Read r bufsize = (bytes, e, r1)"
    by (cases "Reader_Read r bufsize")
  have ok1: "opened_ok r1" and parts: "stream r = bytes @ stream r1"
    and ends: "if stream r = [] then e = Some EOF else bytes \<noteq> [] \<and> e = None"
    using Reader_Read_stream [OF ok k rd] by blast+
  show ?case
  proof (cases "ls = []")
    case True
    with st have "stream r = []" by (simp add: file_of_def)
    with parts ends have "bytes = []" "e = Some EOF" by simp_all
    with rd have rd': "Reader_Read r bufsize = ([], Some EOF, r1)" by simp
    have "naive_loop bufsize r stats out chunks = (Some stats, out, chunks)"
      by (subst naive_loop.simps) (simp add: rd')
    with True show ?thesis
      by (simp add: apply_lines_def)
  next
    case False
    with st have "stream r \<noteq> []" by (simp add: file_of_Nil_iff)
    with ends have bytes: "bytes \<noteq> []" and e: "e = None" by simp_all
    obtain rem e2 r2 where rb: "ReadBytes r1 (CHR 0x0A) [] = (rem, e2, r2)"
      by (cases "ReadBytes r1 (CHR 0x0A) []")
    note rbs = ReadBytes_stream [OF opened_ok_filling [OF ok1] rb]
    from rbs have ok2: "opened_ok r2" by simp
    from wf have nonl: "\<forall>l\<in>set ls. CHR 0x0A \<notin> set l"
      by (simp add: well_formed_no_newline)
    from st parts have whole: "file_of ls = bytes @ stream r1" by simp
    show ?thesis
    proof (cases "stream r1 = []")
      case True
      with rbs have rem: "rem = []" and e2: "e2 = Some EOF" and st2: "stream r2 = file_of []"
        by (simp_all add: file_of_def)
      from whole True have buf: "bytes = file_of ls" by simp
      have sp: "Split bytes (CHR 0x0A) = ls @ [[]]"
        using Split_file_of [OF nonl, of "[]"] by (simp add: buf)
      have "length [] < length ls" using \<open>ls \<noteq> []\<close> by simp
      from less.hyps [OF this _ ok2 st2 less.prems(4),
          of "apply_lines naive_Set stats ls" out "chunks @ [bytes]"]
      obtain cs where rec: "naive_loop bufsize r2
          (apply_lines naive_Set stats ls) out (chunks @ [bytes]) =
          (Some (apply_lines naive_Set stats ls), out, chunks @ bytes # cs)"
        by (auto simp: apply_lines_def)
      have rb': "ReadBytes r1 (CHR 0x0A) [] = ([], Some EOF, r2)"
        using rb rem e2 by simp
      have col: "collate naive_Set stats (Split bytes (CHR 0x0A)) =
          (apply_lines naive_Set stats ls, [])"
        unfolding sp by (rule collate_all_well_formed(2) [OF wf])
      have "naive_loop bufsize r stats out chunks =
          naive_loop bufsize r2
            (apply_lines naive_Set stats ls) out (chunks @ [bytes])"
        by (subst naive_loop.simps) (simp add: rd rb' bytes col)
      with rec show ?thesis
        by simp
    next
      case False
      with whole have nl: "CHR 0x0A \<in> set (stream r1)"
        by (rule file_of_suffix_has_newline)
      with rbs have rem: "rem = takeWhile (\<lambda>c. c \<noteq> CHR 0x0A) (stream r1) @ [CHR 0x0A]"
        and e2: "e2 = None"
        and st2: "stream r2 =
          drop (Suc (length (takeWhile (\<lambda>c. c \<noteq> CHR 0x0A) (stream r1)))) (stream r1)"
        by simp_all
      from file_of_boundary [OF nonl whole False] obtain j where
        j: "0 < j" "j \<le> length ls"
        and pre: "bytes @ takeWhile (\<lambda>c. c \<noteq> CHR 0x0A) (stream r1) @ [CHR 0x0A] = file_of (take j ls)"
        and post: "drop (Suc (length (takeWhile (\<lambda>c. c \<noteq> CHR 0x0A) (stream r1)))) (stream r1) =
          file_of (drop j ls)"
        by blast
      define buf where "buf = bytes @ takeWhile (\<lambda>c. c \<noteq> CHR 0x0A) (stream r1) @ [CHR 0x0A]"
      from pre have bl: "buf = file_of (take j ls)"
        unfolding buf_def by simp
      from nonl have "\<forall>l\<in>set (take j ls). CHR 0x0A \<notin> set l"
        by (auto dest: in_set_takeD)
      from Split_file_of [OF this, of "[]"] bl
      have sp: "Split buf (CHR 0x0A) = take j ls @ [[]]"
        by simp
      from wf have wfj: "\<forall>l\<in>set (take j ls). well_formed l"
        and wfd: "\<forall>l\<in>set (drop j ls). well_formed l"
        by (auto dest: in_set_takeD in_set_dropD)
      from j \<open>ls \<noteq> []\<close> have shorter: "length (drop j ls) < length ls" by simp
      from st2 post have st2': "stream r2 = file_of (drop j ls)" by simp
      from less.hyps [OF shorter wfd ok2 st2' less.prems(4),
          of "apply_lines naive_Set stats (take j ls)" out "chunks @ [buf]"]
      obtain cs where rec: "naive_loop bufsize r2
          (apply_lines naive_Set stats (take j ls)) out (chunks @ [buf]) =
          (Some (apply_lines naive_Set (apply_lines naive_Set stats (take j ls)) (drop j ls)),
           out, chunks @ buf # cs)"
        by auto
      have all: "apply_lines naive_Set (apply_lines naive_Set stats (take j ls)) (drop j ls)
          = apply_lines naive_Set stats ls"
        unfolding apply_lines_append [symmetric] by simp
      have rb': "ReadBytes r1 (CHR 0x0A) [] =
          (takeWhile (\<lambda>c. c \<noteq> CHR 0x0A) (stream r1) @ [CHR 0x0A], None, r2)"
        using rb rem e2 by simp
      have col: "collate naive_Set stats (Split buf (CHR 0x0A)) =
          (apply_lines naive_Set stats (take j ls), [])"
        unfolding sp by (rule collate_all_well_formed(2) [OF wfj])
      have "naive_loop bufsize r stats out chunks =
          naive_loop bufsize r2
            (apply_lines naive_Set stats (take j ls)) out (chunks @ [buf])"
        by (subst naive_loop.simps)
          (simp add: rd rb' bytes col [unfolded buf_def] buf_def)
      with rec all show ?thesis
        by simp
    qed
  qed
qed


lemma StatsMap_Set_naive: "StatsMap_Set m new = naive_Set m new"
  by (simp add: StatsMap_Set_def naive_Set_def LoadOrStore_def Store_def split: option.splits)

lemma opened_ok_NewReader: "opened_ok (NewReader (Some contents))"
  by (simp add: opened_ok_def NewReader_def)

lemma stream_NewReader: "stream (NewReader (Some contents)) = contents"
  by (simp add: stream_def NewReader_def)

lemma ProcessFile_sized_well_formed:
  assumes "\<forall>l\<in>set ls. well_formed l" and "0 < bufsize"
  shows "ProcessFile_sized bufsize pick (Inr (file_of ls)) =
    [PrintStr (report (apply_lines StatsMap_Set [] ls))]"
proof -
  from ProcessFile_loop_well_formed [OF assms(1) opened_ok_NewReader stream_NewReader assms(2),
      of "[]" pick "[]" "[]" "[]"]
  obtain cs where "ProcessFile_loop pick bufsize (NewReader (Some (file_of ls))) [] [] [] [] =
      (Some (apply_lines StatsMap_Set [] ls), [], cs)"
    by auto
  then show ?thesis
    by (simp add: ProcessFile_sized_def ProcessFile_run_def)
qed

lemma naive_sized_well_formed:
  assumes "\<forall>l\<in>set ls. well_formed l" and "0 < bufsize"
  shows "naive_sized bufsize (Inr (file_of ls)) =
    [PrintStr (report (apply_lines naive_Set [] ls))]"
proof -
  from naive_loop_well_formed [OF assms(1) opened_ok_NewReader stream_NewReader assms(2),
      of "[]" "[]" "[]"]
  obtain cs where "naive_loop bufsize (NewReader (Some (file_of ls))) [] [] [] =
      (Some (apply_lines naive_Set [] ls), [], cs)"
    by auto
  then show ?thesis
    by (simp add: naive_sized_def naive_run_def)
qed

lemma apply_lines_Set_naive: "apply_lines StatsMap_Set st ls = apply_lines naive_Set st ls"
proof -
  have "StatsMap_Set = naive_Set"
    by (intro ext) (rule StatsMap_Set_naive)
  then show ?thesis by simp
qed

subsection \<open>The loop of \<^verbatim>\<open>ProcessFile\<close> on any open file\<close>

lemma ProcessFile_loop_step:
  assumes get: "Pool_Get pick bufsize pool = (k, pool1)"
    and rd: "Reader_Read r k = (bytes, e, r1)"
    and bytes: "bytes \<noteq> []"
    and rb: "ReadBytes r1 (CHR 0x0A) [] = (rem, e2, r2)"
    and buf: "buf = (if 0 < length rem \<and> e2 \<noteq> Some EOF
                      then bytes @ take (length rem - 1) rem else bytes)"
    and col: "collate StatsMap_Set stats (Split buf (CHR 0x0A)) = (stats', errs)"
  shows "ProcessFile_loop pick bufsize r pool stats out chunks =
    ProcessFile_loop pick bufsize r2 (Pool_Put pool1 (length buf)) stats' (out @ errs)
      (chunks @ [buf])"
proof -
  from bytes have len: "(length bytes = 0) = False" by simp
  show ?thesis
    by (subst ProcessFile_loop.simps)
      (simp only: get rd rb prod.case len if_False Let_def buf [symmetric] col)
qed

lemma NewMeasurement_Nil: "NewMeasurement [] = Inl (ErrTokens [])"
  by (simp add: NewMeasurement_def)

lemma collate_first_failure:
  "collate set_fn stats lines =
     (apply_lines set_fn stats (takeWhile (\<lambda>l. \<not> isl (NewMeasurement l)) lines),
      (case dropWhile (\<lambda>l. \<not> isl (NewMeasurement l)) lines of
         [] \<Rightarrow> []
       | l # rest \<Rightarrow> if l = [] then [] else [PrintErr (projl (NewMeasurement l))]))"
proof (induction lines arbitrary: stats)
  case Nil
  show ?case by (simp add: apply_lines_def)
next
  case (Cons l ls)
  show ?case
  proof (cases "NewMeasurement l")
    case (Inl e)
    then show ?thesis by (simp add: apply_lines_def)
  next
    case (Inr m)
    then have "l \<noteq> []" by (auto simp: NewMeasurement_Nil)
    with Inr Cons.IH [of "set_fn stats m"] show ?thesis
      by (simp add: apply_lines_def)
  qed
qed

lemma collate_chunks_Cons:
  "collate set_fn st (Split c (CHR 0x0A)) = (st', errs) \<Longrightarrow>
   collate_chunks set_fn (st, out) (c # cs) = collate_chunks set_fn (st', out @ errs) cs"
  by (simp add: collate_chunks_def)

lemma ProcessFile_loop_chunks:
  assumes "opened_ok r" and "0 < bufsize" and "\<forall>x\<in>set pool. 0 < x"
  shows "\<exists>cs stats' out'. ProcessFile_loop pick bufsize r pool stats out chunks =
      (Some stats', out', chunks @ cs) \<and>
    collate_chunks StatsMap_Set (stats, out) cs = (stats', out')"
  using assms
proof (induction "unread r" arbitrary: r pool stats out chunks rule: less_induct)
  case less
  note ok = less.prems(1)
  obtain k pool1 where get: "Pool_Get pick bufsize pool = (k, pool1)"
    by (cases "Pool_Get pick bufsize pool")
  from Pool_Get_positive [OF less.prems(2,3) get]
  have k: "0 < k" and pool1: "\<forall>x\<in>set pool1. 0 < x" by simp_all
  obtain bytes e r1 where rd: "Reader_Read r k = (bytes, e, r1)"
    by (cases "Reader_Read r k")
  have ok1: "opened_ok r1" and parts: "stream r = bytes @ stream r1"
    and ends: "if stream r = [] then e = Some EOF else bytes \<noteq> [] \<and> e = None"
    using Reader_Read_stream [OF ok k rd] by blast+
  show ?case
  proof (cases "stream r = []")
    case True
    with parts ends have "bytes = []" "e = Some EOF" by simp_all
    with rd have rd': "Reader_Read r k = ([], Some EOF, r1)" by simp
    have "ProcessFile_loop pick bufsize r pool stats out chunks = (Some stats, out, chunks)"
      by (subst ProcessFile_loop.simps) (simp add: get rd')
    then show ?thesis
      by (simp add: collate_chunks_def)
  next
    case False
    with ends have bytes: "bytes \<noteq> []" by simp
    obtain rem e2 r2 where rb: "ReadBytes r1 (CHR 0x0A) [] = (rem, e2, r2)"
      by (cases "ReadBytes r1 (CHR 0x0A) []")
    from ReadBytes_stream [OF opened_ok_filling [OF ok1] rb] have ok2: "opened_ok r2"
      by simp
    define buf where "buf = (if 0 < length rem \<and> e2 \<noteq> Some EOF
                      then bytes @ take (length rem - 1) rem else bytes)"
    obtain stats1 errs1 where
      col: "collate StatsMap_Set stats (Split buf (CHR 0x0A)) = (stats1, errs1)"
      by (cases "collate StatsMap_Set stats (Split buf (CHR 0x0A))")
    note step = ProcessFile_loop_step [OF get rd bytes rb buf_def col, of out chunks]
    from bytes have "0 < length buf" by (simp add: buf_def)
    with pool1 have pool2: "\<forall>x\<in>set (Pool_Put pool1 (length buf)). 0 < x"
      by (simp add: Pool_Put_def)
    from Reader_Read_unread [OF rd bytes] ReadBytes_unread [OF rb]
    have "unread r2 < unread r" by simp
    from less.hyps [OF this ok2 less.prems(2) pool2, of stats1 "out @ errs1" "chunks @ [buf]"]
    obtain cs stats' out' where
      run: "ProcessFile_loop pick bufsize r2 (Pool_Put pool1 (length buf)) stats1
        (out @ errs1) (chunks @ [buf]) = (Some stats', out', (chunks @ [buf]) @ cs)"
      and cc: "collate_chunks StatsMap_Set (stats1, out @ errs1) cs = (stats', out')"
      by blast
    from cc collate_chunks_Cons [OF col, of out cs]
    have "collate_chunks StatsMap_Set (stats, out) (buf # cs) = (stats', out')"
      by simp
    with step run have "ProcessFile_loop pick bufsize r pool stats out chunks =
        (Some stats', out', chunks @ buf # cs) \<and>
      collate_chunks StatsMap_Set (stats, out) (buf # cs) = (stats', out')"
      by simp
    then show ?thesis
      by blast
  qed
qed

lemma ProcessFile_well_formed:
  assumes "\<forall>l\<in>set ls. well_formed l"
  shows "ProcessFile pick (Inr (file_of ls)) = [PrintStr (report (apply_lines StatsMap_Set [] ls))]"
  unfolding ProcessFile_def by (rule ProcessFile_sized_well_formed [OF assms]) simp

subsection \<open>The first value and the seeds\<close>

lemma math_Max_seed_negative:
  "math_Max SmallestNonzeroFloat64 (Finite True m e) = SmallestNonzeroFloat64"
proof -
  have "scaled k (Finite True m e) \<le> 0" for k
    by (simp add: mult_le_0_iff)
  moreover have "0 < scaled k (Finite False 1 (- 1074))" for k
    by simp
  ultimately have "f64_less (Finite True m e) (Finite False 1 (- 1074))"
    by (simp del: scaled.simps) (metis less_le_trans not_less order.strict_trans2)
  then show ?thesis
    by (simp add: math_Max_def SmallestNonzeroFloat64_def IsNaN_def)
qed

subsection \<open>\<^verbatim>\<open>Set\<close> as two steps\<close>

lemma Set_in_two_steps:
  "run_schedule [0, 0] (m, [Start new]) = (StatsMap_Set m new, [Finished])"
  by (simp add: StatsMap_Set_def split: prod.splits)

subsection \<open>The count of a key\<close>

lemma Count_of_Set:
  "Count_of (StatsMap_Set m new) k = Count_of m k + (if Station new = k then 1 else 0)"
  by (simp add: StatsMap_Set_naive naive_Set_def Count_of_def update_conv' apply_value_def
      NewStationStats_def split: option.splits)

lemma Count_of_apply_lines:
  "Count_of (apply_lines StatsMap_Set m ls) k = Count_of m k + of_nat (lines_for k ls)"
proof (induction ls arbitrary: m)
  case Nil
  then show ?case by (simp add: apply_lines_def lines_for_def)
next
  case (Cons l ls)
  have "apply_lines StatsMap_Set m (l # ls) =
      apply_lines StatsMap_Set (case NewMeasurement l of Inr x \<Rightarrow> StatsMap_Set m x | Inl e \<Rightarrow> m) ls"
    by (simp add: apply_lines_def)
  with Cons.IH show ?case
    by (cases "NewMeasurement l") (simp_all add: lines_for_def Count_of_Set)
qed

lemma Count_on_well_formed_file:
  assumes "\<forall>l\<in>set ls. well_formed l" and "0 < bufsize"
  shows "\<exists>stats out chunks.
    ProcessFile_run bufsize pick (Inr (file_of ls)) = (Some stats, out, chunks) \<and>
    (\<forall>k. Count_of stats k = of_nat (lines_for k ls))"
proof -
  from ProcessFile_loop_well_formed [OF assms(1) opened_ok_NewReader stream_NewReader assms(2),
      of "[]" pick "[]" "[]" "[]"]
  obtain cs where "ProcessFile_run bufsize pick (Inr (file_of ls)) =
      (Some (apply_lines StatsMap_Set [] ls), [], cs)"
    by (auto simp: ProcessFile_run_def)
  moreover have "Count_of (apply_lines StatsMap_Set [] ls) k = of_nat (lines_for k ls)" for k
    using Count_of_apply_lines [of "[]" ls k] by (simp add: Count_of_def)
  ultimately show ?thesis
    by simp
qed

subsection \<open>An input that ends after the first read, without a newline\<close>

lemma drop_take_drop: "k \<le> n \<Longrightarrow> drop k (take n y) @ drop n y = drop k y"
proof -
  assume kn: "k \<le> n"
  have "drop k y = drop k (take n y @ drop n y)" by simp
  also have "\<dots> = drop k (take n y) @ drop (k - length (take n y)) (drop n y)"
    by (rule drop_append)
  also have "drop (k - length (take n y)) (drop n y) = drop n y"
  proof (cases "n \<le> length y")
    case True
    with kn show ?thesis by simp
  next
    case False
    then show ?thesis by simp
  qed
  finally show ?thesis by simp
qed

lemma Reader_Read_NewReader:
  assumes "0 < k" and "c \<noteq> []"
  shows "\<exists>r1. Reader_Read (NewReader (Some c)) k = (take k c, None, r1) \<and>
              opened_ok r1 \<and> stream r1 = drop k c"
proof (cases "defaultBufSize \<le> k")
  case True
  with assms show ?thesis
    by (simp add: Reader_Read_def NewReader_def File_Read_def opened_ok_def stream_def)
next
  case False
  then have "k \<le> defaultBufSize" by simp
  with assms False show ?thesis
    by (simp add: Reader_Read_def NewReader_def File_Read_def opened_ok_def stream_def
        drop_take_drop min_def)
qed

lemma Pool_Get_empty: "Pool_Get pick new [] = (new, [])"
  by (simp add: Pool_Get_def split: option.splits)

lemma ProcessFile_run_cut:
  assumes "pre \<noteq> []" and "tail \<noteq> []" and "CHR 0x0A \<notin> set tail"
    and "collate StatsMap_Set [] (Split pre (CHR 0x0A)) = (stats', errs)"
  shows "ProcessFile_run (length pre) pick (Inr (pre @ tail)) = (Some stats', errs, [pre])"
proof -
  from assms(1) have pos: "0 < length pre" by simp
  from Reader_Read_NewReader [OF pos, of "pre @ tail"] assms(1)
  obtain r1 where rd: "Reader_Read (NewReader (Some (pre @ tail))) (length pre) = (pre, None, r1)"
    and ok1: "opened_ok r1" and st1: "stream r1 = tail"
    by auto
  obtain rem e2 r2 where rb: "ReadBytes r1 (CHR 0x0A) [] = (rem, e2, r2)"
    by (cases "ReadBytes r1 (CHR 0x0A) []")
  from ReadBytes_stream [OF opened_ok_filling [OF ok1] rb] assms(3) st1
  have ok2: "opened_ok r2" and e2: "e2 = Some EOF" and st2: "stream r2 = []"
    by simp_all
  from e2 have buf: "pre = (if 0 < length rem \<and> e2 \<noteq> Some EOF
      then pre @ take (length rem - 1) rem else pre)"
    by simp
  note step = ProcessFile_loop_step [OF Pool_Get_empty rd assms(1) rb buf assms(4),
      where out = "[]" and chunks = "[]" and pick = pick]
  obtain k2 pool2 where get2: "Pool_Get pick (length pre) (Pool_Put [] (length pre)) = (k2, pool2)"
    by (cases "Pool_Get pick (length pre) (Pool_Put [] (length pre))")
  from pos have "\<forall>x\<in>set (Pool_Put [] (length pre)). 0 < x"
    by (simp add: Pool_Put_def)
  from Pool_Get_positive [OF pos this get2] have k2: "0 < k2" by simp
  obtain bytes e r3 where rd2: "Reader_Read r2 k2 = (bytes, e, r3)"
    by (cases "Reader_Read r2 k2")
  from Reader_Read_stream [OF ok2 k2 rd2] st2 have "bytes = []" "e = Some EOF"
    by simp_all
  with rd2 have rd2': "Reader_Read r2 k2 = ([], Some EOF, r3)" by simp
  have "ProcessFile_loop pick (length pre) r2 (Pool_Put [] (length pre)) stats' ([] @ errs)
      ([] @ [pre]) = (Some stats', errs, [pre])"
    by (subst ProcessFile_loop.simps) (simp add: get2 rd2')
  with step show ?thesis
    by (simp add: ProcessFile_run_def)
qed

lemma naive_loop_step:
  assumes rd: "Reader_Read r bufsize = (bytes, e, r1)"
    and bytes: "bytes \<noteq> []"
    and rb: "ReadBytes r1 (CHR 0x0A) [] = (rem, e2, r2)"
    and buf: "buf = (if e2 \<noteq> Some EOF then bytes @ rem else bytes)"
    and col: "collate naive_Set stats (Split buf (CHR 0x0A)) = (stats', errs)"
  shows "naive_loop bufsize r stats out chunks =
    naive_loop bufsize r2 stats' (out @ errs) (chunks @ [buf])"
proof -
  from bytes have len: "(length bytes = 0) = False" by simp
  show ?thesis
    by (subst naive_loop.simps)
      (simp only: rd rb prod.case len if_False Let_def buf [symmetric] col)
qed

lemma naive_loop_chunks:
  assumes "opened_ok r" and "0 < bufsize"
  shows "\<exists>cs stats' out'. naive_loop bufsize r stats out chunks =
      (Some stats', out', chunks @ cs) \<and>
    collate_chunks naive_Set (stats, out) cs = (stats', out')"
  using assms
proof (induction "unread r" arbitrary: r stats out chunks rule: less_induct)
  case less
  note ok = less.prems(1) and k = less.prems(2)
  obtain bytes e r1 where rd: "Reader_Read r bufsize = (bytes, e, r1)"
    by (cases "Reader_Read r bufsize")
  have ok1: "opened_ok r1" and parts: "stream r = bytes @ stream r1"
    and ends: "if stream r = [] then e = Some EOF else bytes \<noteq> [] \<and> e = None"
    using Reader_Read_stream [OF ok k rd] by blast+
  show ?case
  proof (cases "stream r = []")
    case True
    with parts ends have "bytes = []" "e = Some EOF" by simp_all
    with rd have rd': "Reader_Read r bufsize = ([], Some EOF, r1)" by simp
    have "naive_loop bufsize r stats out chunks = (Some stats, out, chunks)"
      by (subst naive_loop.simps) (simp add: rd')
    then show ?thesis
      by (simp add: collate_chunks_def)
  next
    case False
    with ends have bytes: "bytes \<noteq> []" by simp
    obtain rem e2 r2 where rb: "ReadBytes r1 (CHR 0x0A) [] = (rem, e2, r2)"
      by (cases "ReadBytes r1 (CHR 0x0A) []")
    from ReadBytes_stream [OF opened_ok_filling [OF ok1] rb] have ok2: "opened_ok r2"
      by simp
    define buf where "buf = (if e2 \<noteq> Some EOF then bytes @ rem else bytes)"
    obtain stats1 errs1 where
      col: "collate naive_Set stats (Split buf (CHR 0x0A)) = (stats1, errs1)"
      by (cases "collate naive_Set stats (Split buf (CHR 0x0A))")
    note step = naive_loop_step [OF rd bytes rb buf_def col, of out chunks]
    from Reader_Read_unread [OF rd bytes] ReadBytes_unread [OF rb]
    have "unread r2 < unread r" by simp
    from less.hyps [OF this ok2 k, of stats1 "out @ errs1" "chunks @ [buf]"]
    obtain cs stats' out' where
      run: "naive_loop bufsize r2 stats1 (out @ errs1) (chunks @ [buf]) =
        (Some stats', out', (chunks @ [buf]) @ cs)"
      and cc: "collate_chunks naive_Set (stats1, out @ errs1) cs = (stats', out')"
      by blast
    from cc collate_chunks_Cons [OF col, of out cs]
    have "collate_chunks naive_Set (stats, out) (buf # cs) = (stats', out')"
      by simp
    with step run have "naive_loop bufsize r stats out chunks =
        (Some stats', out', chunks @ buf # cs) \<and>
      collate_chunks naive_Set (stats, out) (buf # cs) = (stats', out')"
      by simp
    then show ?thesis
      by blast
  qed
qed

lemma naive_run_cut:
  assumes "pre \<noteq> []" and "tail \<noteq> []" and "CHR 0x0A \<notin> set tail"
    and "collate naive_Set [] (Split pre (CHR 0x0A)) = (stats', errs)"
  shows "naive_run (length pre) (Inr (pre @ tail)) = (Some stats', errs, [pre])"
proof -
  from assms(1) have pos: "0 < length pre" by simp
  from Reader_Read_NewReader [OF pos, of "pre @ tail"] assms(1)
  obtain r1 where rd: "Reader_Read (NewReader (Some (pre @ tail))) (length pre) = (pre, None, r1)"
    and ok1: "opened_ok r1" and st1: "stream r1 = tail"
    by auto
  obtain rem e2 r2 where rb: "ReadBytes r1 (CHR 0x0A) [] = (rem, e2, r2)"
    by (cases "ReadBytes r1 (CHR 0x0A) []")
  from ReadBytes_stream [OF opened_ok_filling [OF ok1] rb] assms(3) st1
  have ok2: "opened_ok r2" and e2: "e2 = Some EOF" and st2: "stream r2 = []"
    by simp_all
  from e2 have buf: "pre = (if e2 \<noteq> Some EOF then pre @ rem else pre)"
    by simp
  note step = naive_loop_step [OF rd assms(1) rb buf assms(4),
      where out = "[]" and chunks = "[]"]
  obtain bytes e r3 where rd2: "Reader_Read r2 (length pre) = (bytes, e, r3)"
    by (cases "Reader_Read r2 (length pre)")
  from Reader_Read_stream [OF ok2 pos rd2] st2 have "bytes = []" "e = Some EOF"
    by simp_all
  with rd2 have rd2': "Reader_Read r2 (length pre) = ([], Some EOF, r3)" by simp
  have "naive_loop (length pre) r2 stats' ([] @ errs) ([] @ [pre]) = (Some stats', errs, [pre])"
    by (subst naive_loop.simps) (simp add: rd2')
  with step show ?thesis
    by (simp add: naive_run_def)
qed


lemma StatsMap_Set_same_key:
  "StatsMap_Set [(k, s)] \<lparr>Station = k, Value = v\<rparr> = [(k, apply_value s v)]"
  by (simp add: StatsMap_Set_def LoadOrStore_def Store_def)

lemma apply_lines_same_key:
  assumes "NewMeasurement l = Inr \<lparr>Station = k, Value = v\<rparr>" and "0 < n"
  shows "\<exists>s. apply_lines StatsMap_Set [] (replicate n l) = [(k, s)] \<and> Count s = of_nat n"
  using assms(2)
proof (induction n)
  case 0
  then show ?case by simp
next
  case (Suc n)
  show ?case
  proof (cases "n = 0")
    case True
    with assms(1) show ?thesis
      by (simp add: apply_lines_def StatsMap_Set_def LoadOrStore_def Store_def apply_value_def
          NewStationStats_def)
  next
    case False
    with Suc.IH obtain s where s: "apply_lines StatsMap_Set [] (replicate n l) = [(k, s)]"
      and c: "Count s = of_nat n"
      by auto
    have "replicate (Suc n) l = replicate n l @ [l]"
      by (metis replicate_Suc replicate_append_same)
    then have "apply_lines StatsMap_Set [] (replicate (Suc n) l) =
        apply_lines StatsMap_Set [(k, s)] [l]"
      by (simp only: apply_lines_append s)
    also have "\<dots> = [(k, apply_value s v)]"
      using assms(1) by (simp add: apply_lines_def StatsMap_Set_same_key)
    finally show ?thesis
      using c by (simp add: apply_value_def)
  qed
qed

lemma file_of_replicate: "file_of (replicate n l) = concat (replicate n (l @ [CHR 0x0A]))"
  by (simp add: file_of_def)

subsection \<open>Evaluation on concrete inputs\<close>

lemmas float64_eval =
  float64_of_int_def round_float64_def round_ratio_def Let_def bits_def bits_from.simps
  MaxFloat64_def SmallestNonzeroFloat64_def format_nat.simps digit_char_def math_Min_def
  math_Max_def IsNaN_def

lemmas ParseFloat_eval =
  ParseFloat_def special_def special_inf_def readFloat_def convert_float_def is_digit_def
  is_hex_letter_def digit_val_def hex_letter_val_def lower_code_def underscoreOK_def
  is_base_letter_def

lemmas Set_eval =
  NewStationStats_def apply_value_def naive_Set_def LoadOrStore_def Store_def StatsMap_Set_def

lemmas loop_eval =
  ProcessFile_def ProcessFile_sized_def ProcessFile_run_def ProcessFile_loop.simps
  naiveImplementation_def naive_sized_def naive_run_def naive_loop.simps
  NewReader_def Reader_Read_def File_Read_def ReadBytes.simps fill_def defaultBufSize_def
  Pool_Get_def Pool_Put_def

lemma NewMeasurement_A1:
  "NewMeasurement ''A;1'' = Inr \<lparr>Station = ''A'', Value = Finite False 4503599627370496 (- 52)\<rparr>"
  by (simp add: NewMeasurement_def ParseFloat_eval float64_eval cong: let_weak_cong)

lemma NewMeasurement_B2:
  "NewMeasurement ''B;2'' = Inr \<lparr>Station = ''B'', Value = Finite False 4503599627370496 (- 51)\<rparr>"
  by (simp add: NewMeasurement_def ParseFloat_eval float64_eval cong: let_weak_cong)

lemma NewMeasurement_C3:
  "NewMeasurement ''C;3'' = Inr \<lparr>Station = ''C'', Value = Finite False 6755399441055744 (- 51)\<rparr>"
  by (simp add: NewMeasurement_def ParseFloat_eval float64_eval cong: let_weak_cong)

lemma NewMeasurement_Bad: "NewMeasurement ''Bad'' = Inl (ErrTokens ''Bad'')"
  by (simp add: NewMeasurement_def)

lemma StationStats_String_one:
  "StationStats_String
     \<lparr>Min' = Finite False 4503599627370496 (- 52), Max' = Finite False 4503599627370496 (- 52),
      Sum = Finite False 4503599627370496 (- 52), Count = 1\<rparr> = ''1.0/1.0/1.0''"
  by (simp add: StationStats_String_def float64_eval cong: let_weak_cong)

lemma StationStats_String_three:
  "StationStats_String
     \<lparr>Min' = Finite False 6755399441055744 (- 51), Max' = Finite False 6755399441055744 (- 51),
      Sum = Finite False 6755399441055744 (- 51), Count = 1\<rparr> = ''3.0/3.0/3.0''"
  by (simp add: StationStats_String_def float64_eval cong: let_weak_cong)

lemma Set_A1:
  "StatsMap_Set [] \<lparr>Station = ''A'', Value = Finite False 4503599627370496 (- 52)\<rparr> =
     [(''A'', \<lparr>Min' = Finite False 4503599627370496 (- 52),
               Max' = Finite False 4503599627370496 (- 52),
               Sum = Finite False 4503599627370496 (- 52), Count = 1\<rparr>)]"
  by (simp add: Set_eval float64_eval cong: let_weak_cong)

lemma Set_A1_C3:
  "StatsMap_Set
     [(''A'', \<lparr>Min' = Finite False 4503599627370496 (- 52),
               Max' = Finite False 4503599627370496 (- 52),
               Sum = Finite False 4503599627370496 (- 52), Count = 1\<rparr>)]
     \<lparr>Station = ''C'', Value = Finite False 6755399441055744 (- 51)\<rparr> =
     [(''A'', \<lparr>Min' = Finite False 4503599627370496 (- 52),
               Max' = Finite False 4503599627370496 (- 52),
               Sum = Finite False 4503599627370496 (- 52), Count = 1\<rparr>),
      (''C'', \<lparr>Min' = Finite False 6755399441055744 (- 51),
               Max' = Finite False 6755399441055744 (- 51),
               Sum = Finite False 6755399441055744 (- 51), Count = 1\<rparr>)]"
  by (simp add: Set_eval float64_eval cong: let_weak_cong)

lemma run_one_chunk:
  "ProcessFile_run 524288 (\<lambda>pool. None) (Inr ''A;1\<newline>Bad\<newline>C;3\<newline>'') =
     (Some [(''A'', \<lparr>Min' = Finite False 4503599627370496 (- 52),
                     Max' = Finite False 4503599627370496 (- 52),
                     Sum = Finite False 4503599627370496 (- 52), Count = 1\<rparr>)],
      [PrintErr (ErrTokens ''Bad'')], [''A;1\<newline>Bad\<newline>C;3\<newline>''])"
  by (simp add: loop_eval NewMeasurement_A1 NewMeasurement_Bad Set_A1 cong: let_weak_cong)

lemma run_two_chunks:
  "ProcessFile_run 4 (\<lambda>pool. None) (Inr ''A;1\<newline>Bad\<newline>C;3\<newline>'') =
     (Some [(''A'', \<lparr>Min' = Finite False 4503599627370496 (- 52),
                     Max' = Finite False 4503599627370496 (- 52),
                     Sum = Finite False 4503599627370496 (- 52), Count = 1\<rparr>),
            (''C'', \<lparr>Min' = Finite False 6755399441055744 (- 51),
                     Max' = Finite False 6755399441055744 (- 51),
                     Sum = Finite False 6755399441055744 (- 51), Count = 1\<rparr>)],
      [PrintErr (ErrTokens ''Bad'')], [''A;1\<newline>Bad'', ''C;3\<newline>''])"
  by (simp add: loop_eval NewMeasurement_A1 NewMeasurement_Bad NewMeasurement_C3 Set_A1 Set_A1_C3
      cong: let_weak_cong)

lemma report_A:
  "report [(''A'', \<lparr>Min' = Finite False 4503599627370496 (- 52),
                     Max' = Finite False 4503599627370496 (- 52),
                     Sum = Finite False 4503599627370496 (- 52), Count = 1\<rparr>)] =
   ''A: 1.0/1.0/1.0 ''"
  by (simp add: report_def StationStats_String_one)

lemma report_A_C:
  "report [(''A'', \<lparr>Min' = Finite False 4503599627370496 (- 52),
                     Max' = Finite False 4503599627370496 (- 52),
                     Sum = Finite False 4503599627370496 (- 52), Count = 1\<rparr>),
            (''C'', \<lparr>Min' = Finite False 6755399441055744 (- 51),
                     Max' = Finite False 6755399441055744 (- 51),
                     Sum = Finite False 6755399441055744 (- 51), Count = 1\<rparr>)] =
   ''A: 1.0/1.0/1.0 C: 3.0/3.0/3.0 ''"
  by (simp add: report_def StationStats_String_one StationStats_String_three
      less_char_def less_eq_char_def)

lemma NewMeasurement_K20:
  "NewMeasurement ''K;2.0'' = Inr \<lparr>Station = ''K'', Value = Finite False 4503599627370496 (- 51)\<rparr>"
  by (simp add: NewMeasurement_def ParseFloat_eval float64_eval cong: let_weak_cong)

lemma NewMeasurement_K25:
  "NewMeasurement ''K;2.5'' = Inr \<lparr>Station = ''K'', Value = Finite False 5629499534213120 (- 51)\<rparr>"
  by (simp add: NewMeasurement_def ParseFloat_eval float64_eval cong: let_weak_cong)

lemma NewMeasurement_K21:
  "NewMeasurement ''K;2.1'' = Inr \<lparr>Station = ''K'', Value = Finite False 4728779608739021 (- 51)\<rparr>"
  by (simp add: NewMeasurement_def ParseFloat_eval float64_eval cong: let_weak_cong)

lemma NewMeasurement_K22:
  "NewMeasurement ''K;2.2'' = Inr \<lparr>Station = ''K'', Value = Finite False 4953959590107546 (- 51)\<rparr>"
  by (simp add: NewMeasurement_def ParseFloat_eval float64_eval cong: let_weak_cong)

lemma NewMeasurement_K004:
  "NewMeasurement ''K;0.04'' = Inr \<lparr>Station = ''K'', Value = Finite False 5764607523034235 (- 57)\<rparr>"
  by (simp add: NewMeasurement_def ParseFloat_eval float64_eval cong: let_weak_cong)

lemma NewMeasurement_K005:
  "NewMeasurement ''K;0.05'' = Inr \<lparr>Station = ''K'', Value = Finite False 7205759403792794 (- 57)\<rparr>"
  by (simp add: NewMeasurement_def ParseFloat_eval float64_eval cong: let_weak_cong)

lemma NewMeasurement_Bulawayo:
  "NewMeasurement ''Bulawayo;-5.5'' =
     Inr \<lparr>Station = ''Bulawayo'', Value = Finite True 6192449487634432 (- 50)\<rparr>"
  by (simp add: NewMeasurement_def ParseFloat_eval float64_eval cong: let_weak_cong)

lemma report_K20_K25:
  "report (apply_lines StatsMap_Set [] [''K;2.0'', ''K;2.5'']) = ''K: 2.0/2.2/2.5 ''"
proof -
  have "apply_lines StatsMap_Set [] [''K;2.0'', ''K;2.5''] =
      [(''K'', \<lparr>Min' = Finite False 4503599627370496 (- 51),
                Max' = Finite False 5629499534213120 (- 51),
                Sum = Finite False 5066549580791808 (- 50), Count = 2\<rparr>)]"
    by (simp add: apply_lines_def NewMeasurement_K20 NewMeasurement_K25 Set_eval float64_eval
        cong: let_weak_cong)
  then show ?thesis
    by (simp add: report_def StationStats_String_def float64_eval cong: let_weak_cong)
qed

lemma report_K21_K22:
  "report (apply_lines StatsMap_Set [] [''K;2.1'', ''K;2.2'']) = ''K: 2.1/2.1/2.2 ''"
proof -
  have "apply_lines StatsMap_Set [] [''K;2.1'', ''K;2.2''] =
      [(''K'', \<lparr>Min' = Finite False 4728779608739021 (- 51),
                Max' = Finite False 4953959590107546 (- 51),
                Sum = Finite False 4841369599423284 (- 50), Count = 2\<rparr>)]"
    by (simp add: apply_lines_def NewMeasurement_K21 NewMeasurement_K22 Set_eval float64_eval
        cong: let_weak_cong)
  then show ?thesis
    by (simp add: report_def StationStats_String_def float64_eval cong: let_weak_cong)
qed

lemma report_K004_K005:
  "report (apply_lines StatsMap_Set [] [''K;0.04'', ''K;0.05'']) = ''K: 0.0/0.1/0.1 ''"
proof -
  have "apply_lines StatsMap_Set [] [''K;0.04'', ''K;0.05''] =
      [(''K'', \<lparr>Min' = Finite False 5764607523034235 (- 57),
                Max' = Finite False 7205759403792794 (- 57),
                Sum = Finite False 6485183463413514 (- 56), Count = 2\<rparr>)]"
    by (simp add: apply_lines_def NewMeasurement_K004 NewMeasurement_K005 Set_eval float64_eval
        cong: let_weak_cong)
  then show ?thesis
    by (simp add: report_def StationStats_String_def float64_eval cong: let_weak_cong)
qed

lemma report_Bulawayo:
  "report (apply_lines StatsMap_Set [] [''Bulawayo;-5.5'']) = ''Bulawayo: -5.5/-5.5/0.0 ''"
proof -
  have "apply_lines StatsMap_Set [] [''Bulawayo;-5.5''] =
      [(''Bulawayo'', \<lparr>Min' = Finite True 6192449487634432 (- 50),
                       Max' = Finite False 1 (- 1074),
                       Sum = Finite True 6192449487634432 (- 50), Count = 1\<rparr>)]"
    by (simp add: apply_lines_def NewMeasurement_Bulawayo Set_eval float64_eval
        cong: let_weak_cong)
  then show ?thesis
    by (simp add: report_def StationStats_String_def float64_eval cong: let_weak_cong)
qed

lemma NewMeasurement_Bobo: "NewMeasurement ''Bobo'' = Inl (ErrTokens ''Bobo'')"
  by (simp add: NewMeasurement_def)

lemma cut_file_split:
  "cut_file n = (file_of (replicate n ''A;1'') @ ''Bobo'') @ '';2.5''"
  by (simp add: cut_file_def file_of_replicate del: replicate.simps)

lemma length_cut_prefix:
  "length (file_of (replicate n ''A;1'') @ ''Bobo'') = 4 * n + 4"
  by (simp add: file_of_replicate length_concat sum_list_replicate del: replicate.simps)

lemma collate_cut_file:
  "collate set_fn [] (Split (file_of (replicate n ''A;1'') @ ''Bobo'') (CHR 0x0A)) =
     (apply_lines set_fn [] (replicate n ''A;1''), [PrintErr (ErrTokens ''Bobo'')])"
proof -
  have wf: "\<forall>l\<in>set (replicate n ''A;1''). well_formed l"
    by (simp add: well_formed_def NewMeasurement_A1)
  then have "\<forall>l\<in>set (replicate n ''A;1''). CHR 0x0A \<notin> set l"
    by (simp add: well_formed_def)
  from Split_file_of [OF this, of "''Bobo''"]
  have "Split (file_of (replicate n ''A;1'') @ ''Bobo'') (CHR 0x0A) =
      replicate n ''A;1'' @ [''Bobo'']"
    by simp
  with collate_well_formed [OF wf, of set_fn "[]" "[''Bobo'']"]
  show ?thesis
    by (simp add: NewMeasurement_Bobo)
qed

lemma ProcessFile_run_cut_file:
  assumes "0 < n"
  shows "\<exists>s. ProcessFile_run (4 * n + 4) pick (Inr (cut_file n)) =
         (Some [(''A'', s)], [PrintErr (ErrTokens ''Bobo'')],
          [file_of (replicate n ''A;1'') @ ''Bobo'']) \<and>
       Count s = of_nat n"
proof -
  from apply_lines_same_key [OF NewMeasurement_A1 assms]
  obtain s where s: "apply_lines StatsMap_Set [] (replicate n ''A;1'') = [(''A'', s)]"
    and c: "Count s = of_nat n"
    by blast
  have "ProcessFile_run (length (file_of (replicate n ''A;1'') @ ''Bobo'')) pick
      (Inr ((file_of (replicate n ''A;1'') @ ''Bobo'') @ '';2.5'')) =
      (Some [(''A'', s)], [PrintErr (ErrTokens ''Bobo'')],
       [file_of (replicate n ''A;1'') @ ''Bobo''])"
    by (rule ProcessFile_run_cut) (simp_all add: collate_cut_file s)
  with c show ?thesis
    unfolding cut_file_split length_cut_prefix by blast
qed

lemma naive_run_cut_file:
  assumes "0 < n"
  shows "\<exists>s. naive_run (4 * n + 4) (Inr (cut_file n)) =
         (Some [(''A'', s)], [PrintErr (ErrTokens ''Bobo'')],
          [file_of (replicate n ''A;1'') @ ''Bobo'']) \<and>
       Count s = of_nat n"
proof -
  from apply_lines_same_key [OF NewMeasurement_A1 assms]
  obtain s where s: "apply_lines naive_Set [] (replicate n ''A;1'') = [(''A'', s)]"
    and c: "Count s = of_nat n"
    unfolding apply_lines_Set_naive by blast
  have "naive_run (length (file_of (replicate n ''A;1'') @ ''Bobo''))
      (Inr ((file_of (replicate n ''A;1'') @ ''Bobo'') @ '';2.5'')) =
      (Some [(''A'', s)], [PrintErr (ErrTokens ''Bobo'')],
       [file_of (replicate n ''A;1'') @ ''Bobo''])"
    by (rule naive_run_cut) (simp_all add: collate_cut_file s)
  with c show ?thesis
    unfolding cut_file_split length_cut_prefix by blast
qed

lemma cut_file_take_drop:
  "take (4 * n + 4) (cut_file n) = file_of (replicate n ''A;1'') @ ''Bobo''"
  "drop (4 * n + 4) (cut_file n) = '';2.5''"
  "length (cut_file n) = 4 * n + 8"
  using length_cut_prefix [of n] unfolding cut_file_split [of n]
  by (simp_all del: append_assoc)

lemma NewMeasurement_A2:
  "NewMeasurement ''A;2'' = Inr \<lparr>Station = ''A'', Value = Finite False 4503599627370496 (- 51)\<rparr>"
  by (simp add: NewMeasurement_def ParseFloat_eval float64_eval cong: let_weak_cong)

lemma lines_for_replicate:
  "lines_for k (replicate n l @ ls) =
     (case NewMeasurement l of Inr m \<Rightarrow> if Station m = k then n else 0 | Inl e \<Rightarrow> 0) +
     lines_for k ls"
  by (induction n) (simp_all add: lines_for_def split: sum.splits)

lemma ProcessFile_run_unterminated:
  assumes "0 < n"
  shows "\<exists>s. ProcessFile_run (4 * n) pick (Inr (file_of (replicate n ''A;1'') @ ''A;2'')) =
         (Some [(''A'', s)], [], [file_of (replicate n ''A;1'')]) \<and>
       Count s = of_nat n"
proof -
  from apply_lines_same_key [OF NewMeasurement_A1 assms]
  obtain s where s: "apply_lines StatsMap_Set [] (replicate n ''A;1'') = [(''A'', s)]"
    and c: "Count s = of_nat n"
    by blast
  have wf: "\<forall>l\<in>set (replicate n ''A;1''). well_formed l"
    by (simp add: well_formed_def NewMeasurement_A1)
  then have "\<forall>l\<in>set (replicate n ''A;1''). CHR 0x0A \<notin> set l"
    by (simp add: well_formed_def)
  from Split_file_of [OF this, of "[]"]
  have "Split (file_of (replicate n ''A;1'')) (CHR 0x0A) = replicate n ''A;1'' @ [[]]"
    by simp
  with collate_all_well_formed(2) [OF wf, of StatsMap_Set "[]"] s
  have col: "collate StatsMap_Set [] (Split (file_of (replicate n ''A;1'')) (CHR 0x0A)) =
      ([(''A'', s)], [])"
    by simp
  have len: "length (file_of (replicate n ''A;1'')) = 4 * n"
    by (simp add: file_of_replicate length_concat sum_list_replicate del: replicate.simps)
  from assms len have ne: "file_of (replicate n ''A;1'') \<noteq> []"
    by auto
  have "ProcessFile_run (length (file_of (replicate n ''A;1''))) pick
      (Inr (file_of (replicate n ''A;1'') @ ''A;2'')) =
      (Some [(''A'', s)], [], [file_of (replicate n ''A;1'')])"
    by (rule ProcessFile_run_cut [OF ne _ _ col]) simp_all
  with c show ?thesis
    unfolding len by blast
qed

section \<open>The claims\<close>

text \<open>
  C1.  The claim: a fresh aggregate is seeded so that the first value \<open>v\<close> has
  \<open>min > v\<close> and \<open>max < v\<close>, and after the first update \<open>Min = v\<close> and \<open>Max = v\<close>, also
  when the values are negative.  The code seeds \<^verbatim>\<open>Max\<close> with
  \<^verbatim>\<open>math.SmallestNonzeroFloat64\<close>, which is positive.  For every key and every finite value
  with the sign bit set, in both programs, the maximum after the first update is the
  seed and not the value; the file with the one line \<^verbatim>\<open>Bulawayo;-5.5\<close> is reported with
  the maximum \<^verbatim>\<open>0.0\<close>.
\<close>

theorem seed_of_Max_is_positive:
  "map_option Max' (map_of (StatsMap_Set [] \<lparr>Station = k, Value = Finite True m e\<rparr>) k) =
     Some SmallestNonzeroFloat64 \<and>
   SmallestNonzeroFloat64 \<noteq> Finite True m e \<and>
   map_option Max' (map_of (naive_Set [] \<lparr>Station = k, Value = Finite True m e\<rparr>) k) =
     Some SmallestNonzeroFloat64 \<and>
   NewMeasurement ''Bulawayo;-5.5'' =
     Inr \<lparr>Station = ''Bulawayo'', Value = Finite True 6192449487634432 (- 50)\<rparr> \<and>
   ProcessFile pick (Inr ''Bulawayo;-5.5\<newline>'') = [PrintStr ''Bulawayo: -5.5/-5.5/0.0 '']"
proof -
  have "Max' (apply_value NewStationStats (Finite True m e)) = SmallestNonzeroFloat64"
    using math_Max_seed_negative [of m e] by (simp add: apply_value_def NewStationStats_def)
  then have "map_option Max' (map_of (StatsMap_Set [] \<lparr>Station = k, Value = Finite True m e\<rparr>) k) =
     Some SmallestNonzeroFloat64"
    and "map_option Max' (map_of (naive_Set [] \<lparr>Station = k, Value = Finite True m e\<rparr>) k) =
     Some SmallestNonzeroFloat64"
    by (simp_all add: StatsMap_Set_def LoadOrStore_def Store_def naive_Set_def)
  moreover have "SmallestNonzeroFloat64 \<noteq> Finite True m e"
    by (simp add: SmallestNonzeroFloat64_def)
  moreover have "ProcessFile pick (Inr ''Bulawayo;-5.5\<newline>'') =
      [PrintStr ''Bulawayo: -5.5/-5.5/0.0 '']"
    using ProcessFile_well_formed [of "[''Bulawayo;-5.5'']" pick]
    by (simp add: well_formed_def file_of_def NewMeasurement_Bulawayo report_Bulawayo)
  ultimately show ?thesis
    by (simp add: NewMeasurement_Bulawayo)
qed

text \<open>
  C2.  The claim: a malformed line is reported and skipped, and the next line of the
  same chunk is processed.  In the code the loop over the lines ends at the malformed
  line: in the file below, read as one chunk, the well-formed line \<^verbatim>\<open>C;3\<close> after the
  malformed one is not aggregated.
\<close>

theorem malformed_line_counterexample:
  "well_formed ''C;3'' \<and>
   snd (snd (ProcessFile_run (512 * 1024) (\<lambda>pool. None) (Inr ''A;1\<newline>Bad\<newline>C;3\<newline>''))) =
     [''A;1\<newline>Bad\<newline>C;3\<newline>''] \<and>
   ProcessFile (\<lambda>pool. None) (Inr ''A;1\<newline>Bad\<newline>C;3\<newline>'') =
     [PrintErr (ErrTokens ''Bad''), PrintStr ''A: 1.0/1.0/1.0 '']"
  by (simp add: well_formed_def NewMeasurement_C3 ProcessFile_def ProcessFile_sized_def
      run_one_chunk report_A)

text \<open>
  C2, as amended.  The loop over the lines of a chunk hands to \<^verbatim>\<open>Set\<close> the lines before
  the first line that is empty or does not parse, in their order, and ends at that line.
  When that line is not empty, that is malformed, its error is printed; when it is empty
  nothing is printed.  Neither that line nor a line after it in the chunk reaches \<^verbatim>\<open>Set\<close>.
  This holds for every chunk and every map, whatever \<^verbatim>\<open>Set\<close> does with the map; so a
  malformed line is reported exactly when no empty line and no other malformed line comes
  before it in its chunk.  The run does not abort: for the contents of any file the loop
  of either program ends by \<^verbatim>\<open>break\<close> and the report is the last line printed.  With the
  goroutines of \<^verbatim>\<open>ProcessFile\<close> run one after the other, in the order in which they are
  started, the map that is reported and the lines printed before the report are those of
  the loop over the lines run on every chunk in turn, as they are in the naive program.
\<close>

theorem line_loop_ends_at_first_failure:
  "collate set_fn stats lines =
     (apply_lines set_fn stats (takeWhile (\<lambda>l. \<not> isl (NewMeasurement l)) lines),
      (case dropWhile (\<lambda>l. \<not> isl (NewMeasurement l)) lines of
         [] \<Rightarrow> []
       | l # rest \<Rightarrow> if l = [] then [] else [PrintErr (projl (NewMeasurement l))])) \<and>
   (\<exists>stats' out chunks.
      ProcessFile_run (512 * 1024) pick (Inr contents) = (Some stats', out, chunks) \<and>
      collate_chunks StatsMap_Set ([], []) chunks = (stats', out) \<and>
      ProcessFile pick (Inr contents) = out @ [PrintStr (report stats')]) \<and>
   (\<exists>stats' out chunks.
      naive_run (4 * 1024) (Inr contents) = (Some stats', out, chunks) \<and>
      collate_chunks naive_Set ([], []) chunks = (stats', out) \<and>
      naiveImplementation (Inr contents) = out @ [PrintStr (report stats')])"
proof (intro conjI)
  show "collate set_fn stats lines =
     (apply_lines set_fn stats (takeWhile (\<lambda>l. \<not> isl (NewMeasurement l)) lines),
      (case dropWhile (\<lambda>l. \<not> isl (NewMeasurement l)) lines of
         [] \<Rightarrow> []
       | l # rest \<Rightarrow> if l = [] then [] else [PrintErr (projl (NewMeasurement l))]))"
    by (rule collate_first_failure)
next
  from ProcessFile_loop_chunks [OF opened_ok_NewReader, of "512 * 1024" "[]" pick contents "[]" "[]" "[]"]
  obtain cs stats' out' where
    "ProcessFile_run (512 * 1024) pick (Inr contents) = (Some stats', out', cs)"
    "collate_chunks StatsMap_Set ([], []) cs = (stats', out')"
    by (auto simp: ProcessFile_run_def)
  then show "\<exists>stats' out chunks.
      ProcessFile_run (512 * 1024) pick (Inr contents) = (Some stats', out, chunks) \<and>
      collate_chunks StatsMap_Set ([], []) chunks = (stats', out) \<and>
      ProcessFile pick (Inr contents) = out @ [PrintStr (report stats')]"
    by (simp add: ProcessFile_def ProcessFile_sized_def)
next
  from naive_loop_chunks [OF opened_ok_NewReader, of "4 * 1024" contents "[]" "[]" "[]"]
  obtain cs stats' out' where
    "naive_run (4 * 1024) (Inr contents) = (Some stats', out', cs)"
    "collate_chunks naive_Set ([], []) cs = (stats', out')"
    by (auto simp: naive_run_def)
  then show "\<exists>stats' out chunks.
      naive_run (4 * 1024) (Inr contents) = (Some stats', out, chunks) \<and>
      collate_chunks naive_Set ([], []) chunks = (stats', out) \<and>
      naiveImplementation (Inr contents) = out @ [PrintStr (report stats')]"
    by (simp add: naiveImplementation_def naive_sized_def)
qed

theorem line_loop_ends_at_first_failure_witness:
  "collate StatsMap_Set [] [''A;1'', ''Bad'', ''C;3''] =
     ([(''A'', \<lparr>Min' = Finite False 4503599627370496 (- 52),
                Max' = Finite False 4503599627370496 (- 52),
                Sum = Finite False 4503599627370496 (- 52), Count = 1\<rparr>)],
      [PrintErr (ErrTokens ''Bad'')]) \<and>
   collate StatsMap_Set [] [''A;1'', [], ''Bad'', ''C;3''] =
     ([(''A'', \<lparr>Min' = Finite False 4503599627370496 (- 52),
                Max' = Finite False 4503599627370496 (- 52),
                Sum = Finite False 4503599627370496 (- 52), Count = 1\<rparr>)],
      [])"
  using line_loop_ends_at_first_failure [of StatsMap_Set "[]" "[''A;1'', ''Bad'', ''C;3'']"]
    line_loop_ends_at_first_failure [of StatsMap_Set "[]" "[''A;1'', [], ''Bad'', ''C;3'']"]
  by (simp add: NewMeasurement_A1 NewMeasurement_Bad NewMeasurement_Nil apply_lines_def Set_A1)


text \<open>
  C3.  The claim: a last line without its newline is still part of the last chunk and is
  aggregated, and the chunks cover the whole input.  Both programs read the rest of the
  line after a read of the buffer and drop it when the file ends before a newline.  The
  file of 131071 lines \<^verbatim>\<open>A;1\<close> followed by \<^verbatim>\<open>Bobo;2.5\<close> has 524292 bytes: \<^verbatim>\<open>ProcessFile\<close>
  reads 524288 of them into its first buffer, its only chunk; the bytes \<^verbatim>\<open>;2.5\<close> are in
  no chunk, the line \<^verbatim>\<open>Bobo\<close> does not parse, and the map has the key \<^verbatim>\<open>A\<close> alone.  The
  same happens to the naive program, with its buffer of 4096 bytes, on 1023 lines
  \<^verbatim>\<open>A;1\<close> followed by \<^verbatim>\<open>Bobo;2.5\<close>.
\<close>

theorem tail_after_the_buffer_is_dropped:
  "length (cut_file 131071) = 512 * 1024 + 4 \<and>
   drop (512 * 1024) (cut_file 131071) = '';2.5'' \<and>
   (\<forall>pick. \<exists>s. ProcessFile_run (512 * 1024) pick (Inr (cut_file 131071)) =
      (Some [(''A'', s)], [PrintErr (ErrTokens ''Bobo'')], [take (512 * 1024) (cut_file 131071)])) \<and>
   length (cut_file 1023) = 4 * 1024 + 4 \<and>
   drop (4 * 1024) (cut_file 1023) = '';2.5'' \<and>
   (\<exists>s. naive_run (4 * 1024) (Inr (cut_file 1023)) =
      (Some [(''A'', s)], [PrintErr (ErrTokens ''Bobo'')], [take (4 * 1024) (cut_file 1023)]))"
proof -
  have v2: "\<exists>s. ProcessFile_run 524288 pick (Inr (cut_file 131071)) =
      (Some [(''A'', s)], [PrintErr (ErrTokens ''Bobo'')], [take 524288 (cut_file 131071)])"
    for pick
    using ProcessFile_run_cut_file [of 131071 pick] cut_file_take_drop(1) [of 131071]
    by auto
  have nv: "\<exists>s. naive_run 4096 (Inr (cut_file 1023)) =
      (Some [(''A'', s)], [PrintErr (ErrTokens ''Bobo'')], [take 4096 (cut_file 1023)])"
    using naive_run_cut_file [of 1023] cut_file_take_drop(1) [of 1023]
    by auto
  from v2 nv cut_file_take_drop(2,3) [of 131071] cut_file_take_drop(2,3) [of 1023]
  show ?thesis
    by simp
qed

text \<open>
  C4.  The claim: the mean is \<open>sum / count\<close>, computed before any rounding, and rounded
  to one decimal with halves away from zero, so that a mean of 2.25 is printed as 2.3
  and a mean of 2.15 as 2.2.  \<^verbatim>\<open>String\<close> rounds the sum with \<^verbatim>\<open>math.Round\<close>, divides the
  rounded sum by the count and leaves the quotient to \<^verbatim>\<open>%.1f\<close>, which rounds the binary
  value to the nearest decimal, a tie to the even digit.  The values 2.0 and 2.5 (mean
  2.25) are reported with the mean 2.2; the values 2.1 and 2.2 (mean 2.15) with 2.1; the
  values 0.04 and 0.05 (mean 0.045) with 0.1, because the sum 0.09 is rounded to 0.1
  first.
\<close>

theorem mean_is_rounded_by_the_format:
  "ProcessFile pick (Inr ''K;2.0\<newline>K;2.5\<newline>'') = [PrintStr ''K: 2.0/2.2/2.5 ''] \<and>
   ProcessFile pick (Inr ''K;2.1\<newline>K;2.2\<newline>'') = [PrintStr ''K: 2.1/2.1/2.2 ''] \<and>
   ProcessFile pick (Inr ''K;0.04\<newline>K;0.05\<newline>'') = [PrintStr ''K: 0.0/0.1/0.1 '']"
  using ProcessFile_well_formed [of "[''K;2.0'', ''K;2.5'']" pick]
    ProcessFile_well_formed [of "[''K;2.1'', ''K;2.2'']" pick]
    ProcessFile_well_formed [of "[''K;0.04'', ''K;0.05'']" pick]
  by (simp add: well_formed_def file_of_def NewMeasurement_K20 NewMeasurement_K25
      NewMeasurement_K21 NewMeasurement_K22 NewMeasurement_K004 NewMeasurement_K005
      report_K20_K25 report_K21_K22 report_K004_K005)

text \<open>
  C5.  The claim: every positive buffer size gives the same aggregates and the same
  output, for every input.  On the file below a buffer of 4 bytes cuts the input into
  two chunks and one of 524288 bytes leaves it in one; the malformed line ends the loop
  over the lines of its chunk, so the line \<^verbatim>\<open>C;3\<close> is aggregated in the first run and not
  in the second.
\<close>

theorem chunk_size_counterexample:
  "ProcessFile_sized 4 (\<lambda>pool. None) (Inr ''A;1\<newline>Bad\<newline>C;3\<newline>'') =
     [PrintErr (ErrTokens ''Bad''), PrintStr ''A: 1.0/1.0/1.0 C: 3.0/3.0/3.0 ''] \<and>
   ProcessFile_sized (512 * 1024) (\<lambda>pool. None) (Inr ''A;1\<newline>Bad\<newline>C;3\<newline>'') =
     [PrintErr (ErrTokens ''Bad''), PrintStr ''A: 1.0/1.0/1.0 ''] \<and>
   ProcessFile_sized 4 (\<lambda>pool. None) (Inr ''A;1\<newline>Bad\<newline>C;3\<newline>'') \<noteq>
   ProcessFile_sized (512 * 1024) (\<lambda>pool. None) (Inr ''A;1\<newline>Bad\<newline>C;3\<newline>'')"
  by (simp add: ProcessFile_sized_def run_one_chunk run_two_chunks report_A report_A_C)

text \<open>
  C5, as amended.  For every input that consists of well-formed records, each with its
  newline, \<^verbatim>\<open>ProcessFile\<close> run sequentially gives the same aggregates and prints the same
  output for any two positive sizes of a new buffer and any two ways of handing out the
  pooled buffers.
\<close>

theorem chunk_size_independent:
  assumes "\<forall>l\<in>set ls. well_formed l" and "0 < bufsize" and "0 < bufsize'"
  shows "fst (ProcessFile_run bufsize pick (Inr (file_of ls))) =
           fst (ProcessFile_run bufsize' pick' (Inr (file_of ls))) \<and>
         ProcessFile_sized bufsize pick (Inr (file_of ls)) =
           ProcessFile_sized bufsize' pick' (Inr (file_of ls))"
proof -
  have run: "fst (ProcessFile_run b p (Inr (file_of ls))) = Some (apply_lines StatsMap_Set [] ls)"
    if "0 < b" for b p
  proof -
    from ProcessFile_loop_well_formed [OF assms(1) opened_ok_NewReader stream_NewReader that,
        of "[]" p "[]" "[]" "[]"]
    show ?thesis by (auto simp: ProcessFile_run_def)
  qed
  from run [OF assms(2)] run [OF assms(3)]
    ProcessFile_sized_well_formed [OF assms(1,2)] ProcessFile_sized_well_formed [OF assms(1,3)]
  show ?thesis by simp
qed

theorem chunk_size_independent_witness:
  "well_formed ''A;1'' \<and> well_formed ''B;2'' \<and> (0 :: nat) < 4 \<and> (0 :: nat) < 512 * 1024 \<and>
   fst (ProcessFile_run 4 (\<lambda>pool. None) (Inr ''A;1\<newline>B;2\<newline>'')) =
     fst (ProcessFile_run (512 * 1024) (\<lambda>pool. Some 0) (Inr ''A;1\<newline>B;2\<newline>'')) \<and>
   ProcessFile_sized 4 (\<lambda>pool. None) (Inr ''A;1\<newline>B;2\<newline>'') =
     ProcessFile_sized (512 * 1024) (\<lambda>pool. Some 0) (Inr ''A;1\<newline>B;2\<newline>'')"
  using chunk_size_independent
    [of "[''A;1'', ''B;2'']" 4 "512 * 1024" "\<lambda>pool. None" "\<lambda>pool. Some 0"]
  by (simp add: well_formed_def file_of_def NewMeasurement_A1 NewMeasurement_B2)

text \<open>
  C6.  The claim: on an input of well-formed lines the count of each key is the number
  of the lines with that key.  The file of 131072 lines \<^verbatim>\<open>A;1\<close>, each with its newline,
  followed by a last line \<^verbatim>\<open>A;2\<close> without one, has 131073 well-formed lines with the key
  \<^verbatim>\<open>A\<close>.  The first read of \<^verbatim>\<open>ProcessFile\<close> fills its buffer of 524288 bytes with the
  lines \<^verbatim>\<open>A;1\<close>; the last line comes back from \<^verbatim>\<open>ReadBytes\<close> together with \<^verbatim>\<open>io.EOF\<close> and
  is dropped, as in C3, and the count of \<^verbatim>\<open>A\<close> in the final map is 131072.
\<close>

theorem last_line_is_not_counted:
  "well_formed ''A;1'' \<and> well_formed ''A;2'' \<and>
   lines_for ''A'' (replicate 131072 ''A;1'' @ [''A;2'']) = 131073 \<and>
   (\<forall>pick. \<exists>stats out chunks.
      ProcessFile_run (512 * 1024) pick (Inr (file_of (replicate 131072 ''A;1'') @ ''A;2'')) =
        (Some stats, out, chunks) \<and>
      Count_of stats ''A'' = 131072)"
proof -
  have "\<exists>stats out chunks.
      ProcessFile_run 524288 pick (Inr (file_of (replicate 131072 ''A;1'') @ ''A;2'')) =
        (Some stats, out, chunks) \<and>
      Count_of stats ''A'' = 131072" for pick
    using ProcessFile_run_unterminated [of 131072 pick] by (auto simp: Count_of_def)
  moreover have "lines_for ''A'' (replicate 131072 ''A;1'' @ [''A;2'']) = 131073"
    unfolding lines_for_replicate by (simp add: NewMeasurement_A1 NewMeasurement_A2 lines_for_def)
  ultimately show ?thesis
    by (simp add: well_formed_def NewMeasurement_A1 NewMeasurement_A2)
qed

text \<open>
  C7.  The claim: when the file cannot be opened the error is reported and the run
  aborts without a report line.  Neither program returns after it has printed the error
  of \<^verbatim>\<open>os.Open\<close>: it goes on with the nil file, whose first read fails with
  \<^verbatim>\<open>os.ErrInvalid\<close>; that error is printed, the loop is left by \<^verbatim>\<open>break\<close>, and the report
  of the empty map, an empty line, is printed.
\<close>

theorem open_failure_goes_on:
  "ProcessFile pick (Inl e) =
     [PrintMsgErr ''cannot open file'' e, PrintErr ErrInvalid, PrintStr []] \<and>
   naiveImplementation (Inl e) =
     [PrintMsgErr ''cannot able to read the file'' e, PrintErr ErrInvalid, PrintStr []]"
  by (simp add: loop_eval report_def split: option.splits)

text \<open>
  C8.  The claim: \<^verbatim>\<open>NewMeasurement\<close> succeeds exactly on two tokens of which the second is
  a finite decimal number, and a token for an infinity or NaN is a parse failure.
  \<^verbatim>\<open>strconv.ParseFloat\<close> accepts \<^verbatim>\<open>NaN\<close> and \<^verbatim>\<open>-Inf\<close> without an error, \<^verbatim>\<open>NewMeasurement\<close>
  has no other check, and the value reaches \<^verbatim>\<open>Min\<close>, \<^verbatim>\<open>Max\<close> and \<^verbatim>\<open>Sum\<close>.
\<close>

theorem NaN_and_infinity_are_accepted:
  "NewMeasurement ''X;NaN'' = Inr \<lparr>Station = ''X'', Value = NaN\<rparr> \<and>
   NewMeasurement ''X;-Inf'' = Inr \<lparr>Station = ''X'', Value = Infinity True\<rparr> \<and>
   StatsMap_Set [] \<lparr>Station = ''X'', Value = NaN\<rparr> =
     [(''X'', \<lparr>Min' = NaN, Max' = NaN, Sum = NaN, Count = 1\<rparr>)]"
  by (simp add: NewMeasurement_def ParseFloat_eval Set_eval float64_eval cong: let_weak_cong)

text \<open>
  C8, as amended.  \<^verbatim>\<open>NewMeasurement\<close> succeeds exactly when the line has one delimiter
  and \<^verbatim>\<open>strconv.ParseFloat\<close> accepts what follows it; the record then has what precedes
  the delimiter as its station and the value of \<^verbatim>\<open>ParseFloat\<close>, whatever it is.
\<close>

theorem NewMeasurement_succeeds_iff:
  "NewMeasurement s = Inr m \<longleftrightarrow>
     (\<exists>t. s = Station m @ CHR '';'' # t \<and> CHR '';'' \<notin> set (Station m) \<and> CHR '';'' \<notin> set t \<and>
          ParseFloat t = Inr (Value m))"
proof
  assume ok: "NewMeasurement s = Inr m"
  then have len: "length (Split s (CHR '';'')) = 2"
    by (auto simp: NewMeasurement_def Let_def split: if_splits)
  then obtain a b where ab: "Split s (CHR '';'') = [a, b]"
    by (cases "Split s (CHR '';'')"; cases "tl (Split s (CHR '';''))") auto
  with ok have "ParseFloat b = Inr (Value m)" and "Station m = a"
    by (auto simp: NewMeasurement_def Let_def split: sum.splits)
  with ab Split_two [of s "CHR '';''" a b]
  show "\<exists>t. s = Station m @ CHR '';'' # t \<and> CHR '';'' \<notin> set (Station m) \<and> CHR '';'' \<notin> set t \<and>
          ParseFloat t = Inr (Value m)"
    by auto
next
  assume "\<exists>t. s = Station m @ CHR '';'' # t \<and> CHR '';'' \<notin> set (Station m) \<and> CHR '';'' \<notin> set t \<and>
          ParseFloat t = Inr (Value m)"
  then obtain t where t: "s = Station m @ CHR '';'' # t" "CHR '';'' \<notin> set (Station m)"
    "CHR '';'' \<notin> set t" "ParseFloat t = Inr (Value m)"
    by blast
  then have "Split s (CHR '';'') = [Station m, t]"
    using Split_two [of s "CHR '';''" "Station m" t] by simp
  with t(4) show "NewMeasurement s = Inr m"
    by (simp add: NewMeasurement_def)
qed

text \<open>
  C9.  The claim: \<^verbatim>\<open>Set\<close> is atomic for a key, and no update is lost.  \<^verbatim>\<open>Set\<close> is two
  atomic calls with the computation between them.  When two goroutines each add a value
  for the same key and both load before either stores, the second store overwrites the
  first: the count is 1 after two updates.  One after the other they give the count 2.
\<close>

theorem Set_loses_an_update:
  "run_schedule [0, 1, 0, 1]
     ([], [Start \<lparr>Station = ''A'', Value = Finite False 4503599627370496 (- 52)\<rparr>,
           Start \<lparr>Station = ''A'', Value = Finite False 4503599627370496 (- 52)\<rparr>]) =
     ([(''A'', \<lparr>Min' = Finite False 4503599627370496 (- 52),
                Max' = Finite False 4503599627370496 (- 52),
                Sum = Finite False 4503599627370496 (- 52), Count = 1\<rparr>)],
      [Finished, Finished]) \<and>
   run_schedule [0, 0, 1, 1]
     ([], [Start \<lparr>Station = ''A'', Value = Finite False 4503599627370496 (- 52)\<rparr>,
           Start \<lparr>Station = ''A'', Value = Finite False 4503599627370496 (- 52)\<rparr>]) =
     ([(''A'', \<lparr>Min' = Finite False 4503599627370496 (- 52),
                Max' = Finite False 4503599627370496 (- 52),
                Sum = Finite False 4503599627370496 (- 51), Count = 2\<rparr>)],
      [Finished, Finished])"
  by (simp add: Set_eval float64_eval cong: let_weak_cong)

text \<open>
  C10.  For every input that consists of well-formed records, each with its newline, the
  naive program and \<^verbatim>\<open>ProcessFile\<close> of \<^verbatim>\<open>main.go\<close>, each run sequentially, print the same
  output, whatever buffers the pool hands out: the buffer of 4096 bytes of the one, the
  buffers of 524288 bytes and the pooled ones of the other, and the two ways of adding
  the rest of the line, make no difference.
\<close>

theorem naive_equals_ProcessFile:
  assumes "\<forall>l\<in>set ls. well_formed l"
  shows "naiveImplementation (Inr (file_of ls)) = ProcessFile pick (Inr (file_of ls))"
proof -
  have "naiveImplementation (Inr (file_of ls)) = [PrintStr (report (apply_lines naive_Set [] ls))]"
    unfolding naiveImplementation_def by (rule naive_sized_well_formed [OF assms]) simp
  moreover
  have "ProcessFile pick (Inr (file_of ls)) = [PrintStr (report (apply_lines StatsMap_Set [] ls))]"
    unfolding ProcessFile_def by (rule ProcessFile_sized_well_formed [OF assms]) simp
  ultimately show ?thesis
    by (simp add: apply_lines_Set_naive)
qed

theorem naive_equals_ProcessFile_witness:
  "well_formed ''A;1'' \<and> well_formed ''B;2'' \<and>
   naiveImplementation (Inr ''A;1\<newline>B;2\<newline>'') =
   ProcessFile (\<lambda>pool. None) (Inr ''A;1\<newline>B;2\<newline>'')"
  using naive_equals_ProcessFile [of "[''A;1'', ''B;2'']" "\<lambda>pool. None"]
  by (simp add: well_formed_def file_of_def NewMeasurement_A1 NewMeasurement_B2)

end
